theory Spec2Isabelle
  imports Complex_Main
begin

section \<open>YoloMode: the polling scheduler of \<^verbatim>\<open>src/extension.js\<close>\<close>

text \<open>
  The extension keeps its state in module-level variables and reacts to host events and
  timer callbacks on a single JavaScript event loop.  The model below collects those
  variables in one record, keeps the host's table of live timers explicit, and turns
  every listener and every timer callback into a function from state to state.  An
  \<^verbatim>\<open>undefined\<close> timer variable is \<open>None\<close>.
\<close>

datatype State = IDLE | FAST | SLOW

text \<open>The callbacks the extension hands to \<^verbatim>\<open>setInterval\<close> and \<^verbatim>\<open>setTimeout\<close>.\<close>

datatype callback =
    CbPoll              \<comment> \<open>\<^verbatim>\<open>tryAcceptAll\<close>, installed by \<^verbatim>\<open>transitionTo\<close>\<close>
  | CbExpire State      \<comment> \<open>\<^verbatim>\<open>() => transitionTo(target, ...)\<close>\<close>
  | CbHeartbeat         \<comment> \<open>the closure of \<^verbatim>\<open>startHeartbeat\<close>\<close>
  | CbSleepCheck        \<comment> \<open>the closure of \<^verbatim>\<open>startSleepDetection\<close>\<close>
  | CbTextChange        \<comment> \<open>the debounce closure of \<^verbatim>\<open>onDidChangeTextDocument\<close>\<close>
  | CbActivate          \<comment> \<open>the delayed start of \<^verbatim>\<open>activate\<close>\<close>

datatype timer_kind = Interval | Timeout

record timer =
  t_kind :: timer_kind
  t_cb :: callback
  t_delay :: int

datatype status = StCheck | StEye | StClock | StX

record config =
  cfg_enabled :: bool
  fastIntervalMs :: int
  slowIntervalMs :: int
  heartbeatIntervalMs :: int
  fastDurationMs :: int
  cooldownDurationMs :: int

record ext =
  timers :: "(nat \<times> timer) list"      \<comment> \<open>the host's live timers, by handle\<close>
  next_handle :: nat
  pollInterval :: "nat option"
  stateTimeout :: "nat option"
  heartbeatInterval :: "nat option"
  textChangeTimer :: "nat option"
  sleepCheckInterval :: "nat option"
  currentState :: State
  enabled :: bool
  listening :: bool                     \<comment> \<open>\<^verbatim>\<open>eventListeners\<close> is registered\<close>
  windowFocused :: bool
  lastTickTime :: int
  config :: config
  statusBar :: status
  transitions :: "(State \<times> State \<times> string) list"   \<comment> \<open>the logged state changes\<close>
  passes :: nat                         \<comment> \<open>calls of \<^verbatim>\<open>tryAcceptAll\<close> issued so far\<close>

subsection \<open>The host's timers\<close>

definition setTimer :: "timer_kind \<Rightarrow> callback \<Rightarrow> int \<Rightarrow> ext \<Rightarrow> nat \<times> ext" where
  "setTimer k cb ms s =
     (next_handle s,
      s\<lparr>timers := timers s @ [(next_handle s, \<lparr>t_kind = k, t_cb = cb, t_delay = ms\<rparr>)],
        next_handle := Suc (next_handle s)\<rparr>)"

definition clearTimer :: "nat \<Rightarrow> ext \<Rightarrow> ext" where
  "clearTimer h s = s\<lparr>timers := filter (\<lambda>p. fst p \<noteq> h) (timers s)\<rparr>"

subsection \<open>The state machine\<close>

definition updateStatusBar :: "status \<Rightarrow> ext \<Rightarrow> ext" where
  "updateStatusBar t s = s\<lparr>statusBar := t\<rparr>"

definition tryAcceptAll_call :: "ext \<Rightarrow> ext" where
  \<comment> \<open>A timer or command calls \<^verbatim>\<open>tryAcceptAll\<close>; the pass itself is modelled further below
      and touches neither the timers nor \<^verbatim>\<open>currentState\<close>.\<close>
  "tryAcceptAll_call s = s\<lparr>passes := Suc (passes s)\<rparr>"

definition clearStatefulTimers :: "ext \<Rightarrow> ext" where
  "clearStatefulTimers s =
     (let s1 = (case pollInterval s of None \<Rightarrow> s
                | Some h \<Rightarrow> (clearTimer h s)\<lparr>pollInterval := None\<rparr>)
      in case stateTimeout s1 of None \<Rightarrow> s1
         | Some h \<Rightarrow> (clearTimer h s1)\<lparr>stateTimeout := None\<rparr>)"

definition installTimers :: "State \<Rightarrow> ext \<Rightarrow> ext" where
  \<comment> \<open>The \<^verbatim>\<open>if (newState === State.FAST) ... else if ... else\<close> of \<^verbatim>\<open>transitionTo\<close>.\<close>
  "installTimers newState s =
     (if newState = FAST then
        (let (h1, s1) = setTimer Interval CbPoll (fastIntervalMs (config s)) s;
             s2 = s1\<lparr>pollInterval := Some h1\<rparr>;
             (h2, s3) = setTimer Timeout (CbExpire SLOW) (fastDurationMs (config s2)) s2
         in updateStatusBar StCheck (s3\<lparr>stateTimeout := Some h2\<rparr>))
      else if newState = SLOW then
        (let (h1, s1) = setTimer Interval CbPoll (slowIntervalMs (config s)) s;
             s2 = s1\<lparr>pollInterval := Some h1\<rparr>;
             (h2, s3) = setTimer Timeout (CbExpire IDLE) (cooldownDurationMs (config s2)) s2
         in updateStatusBar StEye (s3\<lparr>stateTimeout := Some h2\<rparr>))
      else updateStatusBar StClock s)"

definition transitionTo :: "State \<Rightarrow> string \<Rightarrow> ext \<Rightarrow> ext" where
  "transitionTo newState trigger s =
     (let prev = currentState s;
          s1 = clearStatefulTimers s;
          s2 = s1\<lparr>currentState := newState\<rparr>;
          s3 = (if prev \<noteq> newState
                then s2\<lparr>transitions := transitions s2 @ [(prev, newState, trigger)]\<rparr>
                else s2)
      in installTimers newState s3)"

definition stopHeartbeat :: "ext \<Rightarrow> ext" where
  "stopHeartbeat s =
     (case heartbeatInterval s of None \<Rightarrow> s
      | Some h \<Rightarrow> (clearTimer h s)\<lparr>heartbeatInterval := None\<rparr>)"

definition startHeartbeat :: "ext \<Rightarrow> ext" where
  "startHeartbeat s =
     (let s1 = stopHeartbeat s; baseInterval = heartbeatIntervalMs (config s1)
      in if baseInterval > 0
         then (let (h, s2) = setTimer Interval CbHeartbeat baseInterval s1
               in s2\<lparr>heartbeatInterval := Some h\<rparr>)
         else s1)"

definition clearAllTimers :: "ext \<Rightarrow> ext" where
  "clearAllTimers s =
     (let s1 = stopHeartbeat (clearStatefulTimers s);
          s2 = (case textChangeTimer s1 of None \<Rightarrow> s1
                | Some h \<Rightarrow> (clearTimer h s1)\<lparr>textChangeTimer := None\<rparr>)
      in case sleepCheckInterval s2 of None \<Rightarrow> s2
         | Some h \<Rightarrow> (clearTimer h s2)\<lparr>sleepCheckInterval := None\<rparr>)"

definition startSleepDetection :: "int \<Rightarrow> ext \<Rightarrow> ext" where
  \<comment> \<open>\<open>now\<close> is the value of \<^verbatim>\<open>Date.now()\<close> at the call.\<close>
  "startSleepDetection now s =
     (let s1 = (case sleepCheckInterval s of None \<Rightarrow> s | Some h \<Rightarrow> clearTimer h s);
          s2 = s1\<lparr>lastTickTime := now\<rparr>;
          (h, s3) = setTimer Interval CbSleepCheck 5000 s2
      in s3\<lparr>sleepCheckInterval := Some h\<rparr>)"

definition sleepCheck :: "int \<Rightarrow> ext \<Rightarrow> ext" where
  \<comment> \<open>The body of the liveness sampler; \<open>now\<close> is its \<^verbatim>\<open>Date.now()\<close>.\<close>
  "sleepCheck now s =
     (let drift = now - lastTickTime s;
          s1 = (if drift > 10000
                then (if enabled s then transitionTo FAST ''sleepRecovery'' s else s)
                else s)
      in s1\<lparr>lastTickTime := now\<rparr>)"

definition heartbeatTick :: "ext \<Rightarrow> ext" where
  "heartbeatTick s =
     (if \<not> enabled s then s
      else if currentState s = IDLE then tryAcceptAll_call s else s)"

definition textChangeFire :: "ext \<Rightarrow> ext" where
  "textChangeFire s =
     (if enabled s \<and> currentState s = IDLE
      then transitionTo FAST ''textDocumentChanged'' s else s)"

subsection \<open>Listeners and commands\<close>

definition trigger :: "string \<Rightarrow> ext \<Rightarrow> ext" where
  "trigger name s = (if enabled s then transitionTo FAST name s else s)"

definition onDidChangeWindowState :: "bool \<Rightarrow> ext \<Rightarrow> ext" where
  "onDidChangeWindowState focused s =
     (if focused \<noteq> windowFocused s then
        (let s1 = s\<lparr>windowFocused := focused\<rparr>
         in if focused then (if enabled s1 then transitionTo FAST ''windowFocused'' s1 else s1)
            else s1)
      else s)"

definition onDidChangeTextDocument :: "ext \<Rightarrow> ext" where
  "onDidChangeTextDocument s =
     (if \<not> enabled s then s
      else (let s1 = (case textChangeTimer s of None \<Rightarrow> s | Some h \<Rightarrow> clearTimer h s);
                (h, s2) = setTimer Timeout CbTextChange 2000 s1
            in s2\<lparr>textChangeTimer := Some h\<rparr>))"

definition toggle :: "ext \<Rightarrow> ext" where
  \<comment> \<open>The handler of the command \<^verbatim>\<open>ag-auto-accept.toggle\<close>.\<close>
  "toggle s =
     (let s1 = s\<lparr>enabled := \<not> enabled s\<rparr>
      in if enabled s1
         then transitionTo FAST ''toggle'' (startHeartbeat (s1\<lparr>listening := True\<rparr>))
         else updateStatusBar StX
                ((clearAllTimers s1)\<lparr>listening := False, currentState := IDLE\<rparr>))"

definition onDidChangeConfiguration :: "config \<Rightarrow> bool \<Rightarrow> ext \<Rightarrow> ext" where
  \<comment> \<open>The settings of \<^verbatim>\<open>ag-auto-accept\<close> changed to \<open>c\<close>; \<open>hb\<close> tells whether
      \<^verbatim>\<open>heartbeatIntervalMs\<close> is affected.\<close>
  "onDidChangeConfiguration c hb s =
     (let s1 = s\<lparr>config := c\<rparr>;
          s2 = (if cfg_enabled c \<noteq> enabled s1 then toggle s1 else s1)
      in if hb then startHeartbeat s2 else s2)"

definition forceAccept :: "ext \<Rightarrow> ext" where
  "forceAccept s = tryAcceptAll_call s"

definition deactivate :: "ext \<Rightarrow> ext" where
  "deactivate s = (clearAllTimers s)\<lparr>listening := False\<rparr>"

definition init :: "config \<Rightarrow> int \<Rightarrow> ext" where
  \<comment> \<open>The module-level initialisers; \<open>now\<close> is the \<^verbatim>\<open>Date.now()\<close> of \<^verbatim>\<open>lastTickTime\<close>.\<close>
  "init c now =
     \<lparr>timers = [], next_handle = 0, pollInterval = None, stateTimeout = None,
      heartbeatInterval = None, textChangeTimer = None, sleepCheckInterval = None,
      currentState = IDLE, enabled = True, listening = False, windowFocused = True,
      lastTickTime = now, config = c, statusBar = StClock, transitions = [], passes = 0\<rparr>"

definition activate :: "config \<Rightarrow> int \<Rightarrow> ext" where
  "activate c now =
     (let s = (init c now)\<lparr>enabled := cfg_enabled c\<rparr>
      in if enabled s then
           (let s1 = startSleepDetection now (startHeartbeat (s\<lparr>listening := True\<rparr>));
                (h, s2) = setTimer Timeout CbActivate 3000 s1
            in updateStatusBar StClock s2)
         else updateStatusBar StX s)"

subsection \<open>The event loop\<close>

text \<open>
  One turn of the event loop: a host notification reaches its listener (when the
  listeners are registered), a command is invoked, or the host fires a live timer.  A
  fired \<^verbatim>\<open>setTimeout\<close> timer leaves the host's table before its callback runs; the
  variable that holds its handle keeps the stale handle, as in the source.
\<close>

datatype event =
    EvTrigger string
  | EvWindowState bool
  | EvTextDocument
  | EvConfiguration config bool
  | EvToggle
  | EvForceAccept
  | EvFire nat int          \<comment> \<open>the timer with this handle fires at this \<^verbatim>\<open>Date.now()\<close>\<close>
  | EvDeactivate

fun runCallback :: "callback \<Rightarrow> int \<Rightarrow> ext \<Rightarrow> ext" where
  "runCallback CbPoll now s = tryAcceptAll_call s"
| "runCallback (CbExpire st) now s =
     transitionTo st (if st = SLOW then ''fastDurationExpired'' else ''cooldownExpired'') s"
| "runCallback CbHeartbeat now s = heartbeatTick s"
| "runCallback CbSleepCheck now s = sleepCheck now s"
| "runCallback CbTextChange now s = textChangeFire s"
| "runCallback CbActivate now s = transitionTo FAST ''activate'' s"

definition fire :: "nat \<Rightarrow> int \<Rightarrow> ext \<Rightarrow> ext" where
  "fire h now s =
     (case map_of (timers s) h of
        None \<Rightarrow> s
      | Some t \<Rightarrow> runCallback (t_cb t) now
                   (if t_kind t = Timeout then clearTimer h s else s))"

fun step :: "event \<Rightarrow> ext \<Rightarrow> ext" where
  "step (EvTrigger name) s = (if listening s then trigger name s else s)"
| "step (EvWindowState f) s = (if listening s then onDidChangeWindowState f s else s)"
| "step EvTextDocument s = (if listening s then onDidChangeTextDocument s else s)"
| "step (EvConfiguration c hb) s =
     (if listening s then onDidChangeConfiguration c hb s else s\<lparr>config := c\<rparr>)"
| "step EvToggle s = toggle s"
| "step EvForceAccept s = forceAccept s"
| "step (EvFire h now) s = fire h now s"
| "step EvDeactivate s = deactivate s"

fun run :: "event list \<Rightarrow> ext \<Rightarrow> ext" where
  "run [] s = s"
| "run (e # es) s = run es (step e s)"

subsection \<open>Observations on the timer table\<close>

fun is_poll :: "callback \<Rightarrow> bool" where
  "is_poll CbPoll = True"
| "is_poll _ = False"

fun is_expire :: "callback \<Rightarrow> bool" where
  "is_expire (CbExpire _) = True"
| "is_expire _ = False"

definition pollTimers :: "ext \<Rightarrow> (nat \<times> timer) list" where
  \<comment> \<open>the live repeating poll timers of the scheduler\<close>
  "pollTimers s = filter (\<lambda>p. is_poll (t_cb (snd p))) (timers s)"

definition expiryTimers :: "ext \<Rightarrow> (nat \<times> timer) list" where
  \<comment> \<open>the live state-expiry timers of the scheduler\<close>
  "expiryTimers s = filter (\<lambda>p. is_expire (t_cb (snd p))) (timers s)"

definition otherTimers :: "ext \<Rightarrow> (nat \<times> timer) list" where
  \<comment> \<open>every other live timer: heartbeat, liveness sampler, debounce, delayed start\<close>
  "otherTimers s =
     filter (\<lambda>p. \<not> is_poll (t_cb (snd p)) \<and> \<not> is_expire (t_cb (snd p))) (timers s)"

fun handle_below :: "nat option \<Rightarrow> nat \<Rightarrow> bool" where
  "handle_below None n = True"
| "handle_below (Some h) n = (h < n)"

definition sched_inv :: "ext \<Rightarrow> bool" where
  \<comment> \<open>Handles are fresh and unique, and the live scheduler timers are exactly the ones
      the two variables name.\<close>
  "sched_inv s \<longleftrightarrow>
     distinct (map fst (timers s)) \<and>
     list_all (\<lambda>p. fst p < next_handle s) (timers s) \<and>
     list_all (\<lambda>p. is_poll (t_cb (snd p)) = (pollInterval s = Some (fst p))) (timers s) \<and>
     list_all (\<lambda>p. is_expire (t_cb (snd p)) = (stateTimeout s = Some (fst p))) (timers s) \<and>
     handle_below (pollInterval s) (next_handle s) \<and>
     handle_below (stateTimeout s) (next_handle s)"

definition sample_config :: config where
  \<comment> \<open>The intervals the specification names as defaults, with a 5 s heartbeat.\<close>
  "sample_config = \<lparr>cfg_enabled = True, fastIntervalMs = 200, slowIntervalMs = 2000,
      heartbeatIntervalMs = 5000, fastDurationMs = 10000, cooldownDurationMs = 30000\<rparr>"

definition sample_run :: ext where
  \<comment> \<open>Activation, the delayed start after 3 s, one trigger, and the expiry of FAST.\<close>
  "sample_run = run [EvFire 2 3000, EvTrigger ''terminalOpened'', EvFire 6 13000]
                  (activate sample_config 0)"

section \<open>The acceptance pass: \<^verbatim>\<open>tryAcceptAll\<close>\<close>

text \<open>
  \<^verbatim>\<open>tryAcceptAll\<close> is an \<^verbatim>\<open>async\<close> function: it runs until its first \<^verbatim>\<open>await\<close>, and the
  event loop resumes it when the awaited promise settles.  Calls are numbered in the
  order they are made.  The model keeps, for every call that is suspended, the
  \<^verbatim>\<open>await\<close> it is suspended at, and records every host command and every remote
  evaluation a call issues.
\<close>

definition ACCEPT_COMMANDS :: "string list" where
  "ACCEPT_COMMANDS =
     [''antigravity.agent.acceptAgentStep'',
      ''antigravity.terminalCommand.accept'',
      ''antigravity.command.accept'',
      ''antigravity.prioritized.agentAcceptAllInFile'',
      ''antigravity.prioritized.agentAcceptFocusedHunk'']"

datatype action =
    Exec string       \<comment> \<open>\<^verbatim>\<open>vscode.commands.executeCommand(cmdId)\<close>\<close>
  | Eval              \<comment> \<open>\<^verbatim>\<open>Runtime.evaluate\<close> sent on the single connection of v3.0\<close>
  | EvalOn string     \<comment> \<open>\<^verbatim>\<open>Runtime.evaluate\<close> sent to a pooled target of v3.1\<close>

datatype outcome = Fulfilled | Rejected

datatype pc =
    AwaitCommand nat  \<comment> \<open>suspended at \<^verbatim>\<open>await executeCommand(ACCEPT_COMMANDS[k])\<close>\<close>
  | AwaitCDP          \<comment> \<open>suspended at \<^verbatim>\<open>await tryAcceptViaCDP()\<close>\<close>
  | AwaitEval         \<comment> \<open>v3.1: inside \<^verbatim>\<open>tryAcceptViaCDP\<close>, at \<^verbatim>\<open>await cdpSendTo(...)\<close>\<close>

datatype settle = Skipped | Completed

record pass_state =
  p_enabled :: bool
  isAccepting :: bool
  cdpReady :: bool
  enableCDP :: bool
  inflight :: "(nat \<times> pc) list"
  next_call :: nat
  trace :: "(nat \<times> action) list"
  settled :: "(nat \<times> settle) list"
  errors :: "nat list"        \<comment> \<open>calls whose outer \<^verbatim>\<open>catch\<close> logged an error\<close>

definition pass_init :: "bool \<Rightarrow> bool \<Rightarrow> bool \<Rightarrow> pass_state" where
  "pass_init en ready cdp =
     \<lparr>p_enabled = en, isAccepting = False, cdpReady = ready, enableCDP = cdp,
      inflight = [], next_call = 0, trace = [], settled = [], errors = []\<rparr>"

subsection \<open>Version 3.0 (\<^verbatim>\<open>src/extension.js\<close>)\<close>

definition tryAcceptViaCDP_call :: "nat \<Rightarrow> pass_state \<Rightarrow> pass_state" where
  \<comment> \<open>\<^verbatim>\<open>tryAcceptViaCDP\<close> up to its \<^verbatim>\<open>await cdpSend(...)\<close>.\<close>
  "tryAcceptViaCDP_call c s =
     (if \<not> cdpReady s \<or> \<not> enableCDP s then s
      else s\<lparr>trace := trace s @ [(c, Eval)]\<rparr>)"

definition commandLoop :: "nat \<Rightarrow> nat \<Rightarrow> pass_state \<Rightarrow> pass_state" where
  \<comment> \<open>The \<^verbatim>\<open>for (const cmdId of ACCEPT_COMMANDS)\<close> loop from index \<open>k\<close> to its next
      \<^verbatim>\<open>await\<close>, and the call of \<^verbatim>\<open>tryAcceptViaCDP\<close> after the loop.\<close>
  "commandLoop c k s =
     (if k < length ACCEPT_COMMANDS
      then s\<lparr>trace := trace s @ [(c, Exec (ACCEPT_COMMANDS ! k))],
             inflight := inflight s @ [(c, AwaitCommand k)]\<rparr>
      else (let s1 = tryAcceptViaCDP_call c s
            in s1\<lparr>inflight := inflight s1 @ [(c, AwaitCDP)]\<rparr>))"

definition tryAcceptAll :: "pass_state \<Rightarrow> pass_state" where
  "tryAcceptAll s =
     (let c = next_call s; s1 = s\<lparr>next_call := Suc c\<rparr>
      in if \<not> p_enabled s1 \<or> isAccepting s1
         then s1\<lparr>settled := settled s1 @ [(c, Skipped)]\<rparr>
         else commandLoop c 0 (s1\<lparr>isAccepting := True\<rparr>))"

definition finish :: "nat \<Rightarrow> outcome \<Rightarrow> pass_state \<Rightarrow> pass_state" where
  \<comment> \<open>The awaited \<^verbatim>\<open>tryAcceptViaCDP()\<close> settled: the outer \<^verbatim>\<open>catch\<close> logs a rejection,
      and \<^verbatim>\<open>finally\<close> clears the guard.\<close>
  "finish c r s =
     (let s1 = (if r = Rejected then s\<lparr>errors := errors s @ [c]\<rparr> else s)
      in s1\<lparr>isAccepting := False, settled := settled s1 @ [(c, Completed)]\<rparr>)"

definition suspended :: "nat \<Rightarrow> pass_state \<Rightarrow> pass_state" where
  "suspended c s = s\<lparr>inflight := filter (\<lambda>p. fst p \<noteq> c) (inflight s)\<rparr>"

definition resume :: "nat \<Rightarrow> outcome \<Rightarrow> pass_state \<Rightarrow> pass_state" where
  \<comment> \<open>The promise call \<open>c\<close> awaits settles with \<open>r\<close>.  A rejected command is swallowed by the
      inner \<^verbatim>\<open>catch\<close>.\<close>
  "resume c r s =
     (case map_of (inflight s) c of
        None \<Rightarrow> s
      | Some (AwaitCommand k) \<Rightarrow> commandLoop c (Suc k) (suspended c s)
      | Some AwaitCDP \<Rightarrow> finish c r (suspended c s)
      | Some AwaitEval \<Rightarrow> s)"

datatype pevent =
    PInvoke                   \<comment> \<open>a timer, the heartbeat or \<^verbatim>\<open>forceAccept\<close> calls \<^verbatim>\<open>tryAcceptAll\<close>\<close>
  | PResume nat outcome
  | PSetEnabled bool
  | PSetCdpReady bool
  | PSetEnableCDP bool

fun pstep :: "pevent \<Rightarrow> pass_state \<Rightarrow> pass_state" where
  "pstep PInvoke s = tryAcceptAll s"
| "pstep (PResume c r) s = resume c r s"
| "pstep (PSetEnabled b) s = s\<lparr>p_enabled := b\<rparr>"
| "pstep (PSetCdpReady b) s = s\<lparr>cdpReady := b\<rparr>"
| "pstep (PSetEnableCDP b) s = s\<lparr>enableCDP := b\<rparr>"

fun prun :: "pevent list \<Rightarrow> pass_state \<Rightarrow> pass_state" where
  "prun [] s = s"
| "prun (e # es) s = prun es (pstep e s)"

fun is_exec :: "action \<Rightarrow> bool" where
  "is_exec (Exec x) = True"
| "is_exec _ = False"

definition commands_of :: "nat \<Rightarrow> pass_state \<Rightarrow> action list" where
  \<comment> \<open>the host commands call \<open>c\<close> executed, in order\<close>
  "commands_of c s = map snd (filter (\<lambda>p. fst p = c \<and> is_exec (snd p)) (trace s))"

definition actions_of :: "nat \<Rightarrow> pass_state \<Rightarrow> action list" where
  \<comment> \<open>everything call \<open>c\<close> issued, in order\<close>
  "actions_of c s = map snd (filter (\<lambda>p. fst p = c) (trace s))"

subsection \<open>Version 3.1 (\<^verbatim>\<open>src/unnamed/part_002\<close>, third document)\<close>

text \<open>
  In v3.1 \<^verbatim>\<open>tryAcceptAll\<close> only awaits \<^verbatim>\<open>tryAcceptViaCDP()\<close>, which walks the target pool
  and awaits one evaluation per pooled target whose socket is open.  Which entry the
  \<^verbatim>\<open>Map\<close> iterator yields next is known only when the walk gets there, so the event that
  resumes the call supplies it: \<open>Some t\<close> for the next open target, \<open>None\<close> when the walk
  ends.
\<close>

definition tryAcceptViaCDP_next :: "nat \<Rightarrow> string option \<Rightarrow> pass_state \<Rightarrow> pass_state" where
  "tryAcceptViaCDP_next c nxt s =
     (case nxt of
        None \<Rightarrow> s\<lparr>inflight := inflight s @ [(c, AwaitCDP)]\<rparr>
      | Some t \<Rightarrow> s\<lparr>trace := trace s @ [(c, EvalOn t)],
                     inflight := inflight s @ [(c, AwaitEval)]\<rparr>)"

definition tryAcceptAll_v31 :: "string option \<Rightarrow> pass_state \<Rightarrow> pass_state" where
  \<comment> \<open>\<open>first\<close> is the first open target of the pool, \<open>None\<close> for an empty pool.\<close>
  "tryAcceptAll_v31 first s =
     (let c = next_call s; s1 = s\<lparr>next_call := Suc c\<rparr>
      in if \<not> p_enabled s1 \<or> isAccepting s1
         then s1\<lparr>settled := settled s1 @ [(c, Skipped)]\<rparr>
         else tryAcceptViaCDP_next c (if enableCDP s1 then first else None)
                (s1\<lparr>isAccepting := True\<rparr>))"

definition resume_v31 :: "nat \<Rightarrow> outcome \<Rightarrow> string option \<Rightarrow> pass_state \<Rightarrow> pass_state" where
  "resume_v31 c r nxt s =
     (case map_of (inflight s) c of
        None \<Rightarrow> s
      | Some (AwaitCommand k) \<Rightarrow> s
      | Some AwaitCDP \<Rightarrow> finish c r (suspended c s)
      | Some AwaitEval \<Rightarrow> tryAcceptViaCDP_next c nxt (suspended c s))"

datatype pevent_v31 =
    QInvoke "string option"
  | QResume nat outcome "string option"
  | QSetEnabled bool
  | QSetEnableCDP bool

fun pstep_v31 :: "pevent_v31 \<Rightarrow> pass_state \<Rightarrow> pass_state" where
  "pstep_v31 (QInvoke first) s = tryAcceptAll_v31 first s"
| "pstep_v31 (QResume c r nxt) s = resume_v31 c r nxt s"
| "pstep_v31 (QSetEnabled b) s = s\<lparr>p_enabled := b\<rparr>"
| "pstep_v31 (QSetEnableCDP b) s = s\<lparr>enableCDP := b\<rparr>"

fun prun_v31 :: "pevent_v31 list \<Rightarrow> pass_state \<Rightarrow> pass_state" where
  "prun_v31 [] s = s"
| "prun_v31 (e # es) s = prun_v31 es (pstep_v31 e s)"

fun pc_ok :: "pass_state \<Rightarrow> nat \<times> pc \<Rightarrow> bool" where
  "pc_ok s (c, AwaitCommand k) =
     (k < length ACCEPT_COMMANDS \<and> commands_of c s = map Exec (take (Suc k) ACCEPT_COMMANDS))"
| "pc_ok s (c, AwaitCDP) = (commands_of c s = map Exec ACCEPT_COMMANDS)"
| "pc_ok s (c, AwaitEval) = False"

fun settled_ok :: "pass_state \<Rightarrow> nat \<times> settle \<Rightarrow> bool" where
  "settled_ok s (c, Completed) = (commands_of c s = map Exec ACCEPT_COMMANDS)"
| "settled_ok s (c, Skipped) = (actions_of c s = [])"

definition pass_inv :: "pass_state \<Rightarrow> bool" where
  \<comment> \<open>At most one call is suspended, and it holds the guard; the commands a call has
      executed are the prefix of \<^verbatim>\<open>ACCEPT_COMMANDS\<close> its position in the loop says.\<close>
  "pass_inv s \<longleftrightarrow>
     length (inflight s) \<le> 1 \<and>
     isAccepting s = (inflight s \<noteq> []) \<and>
     list_all (\<lambda>p. fst p < next_call s) (inflight s) \<and>
     list_all (\<lambda>p. fst p < next_call s) (trace s) \<and>
     list_all (\<lambda>p. fst p < next_call s) (settled s) \<and>
     list_all (pc_ok s) (inflight s) \<and>
     list_all (settled_ok s) (settled s) \<and>
     list_all (\<lambda>p. fst p \<notin> fst ` set (inflight s)) (settled s)"

definition no_exec :: "pass_state \<Rightarrow> bool" where
  \<comment> \<open>no host command has been executed\<close>
  "no_exec s = list_all (\<lambda>p. \<not> is_exec (snd p)) (trace s)"

definition awaiting_cdp :: pass_state where
  \<comment> \<open>A v3.0 pass whose five commands have settled, two of them by rejection, suspended
      at \<^verbatim>\<open>await tryAcceptViaCDP()\<close>.\<close>
  "awaiting_cdp = prun [PInvoke, PResume 0 Rejected, PResume 0 Fulfilled, PResume 0 Fulfilled,
                        PResume 0 Rejected, PResume 0 Fulfilled] (pass_init True True True)"

definition pass_v31_done :: pass_state where
  \<comment> \<open>A completed v3.1 pass over a pool with one open target.\<close>
  "pass_v31_done = prun_v31 [QInvoke (Some ''page-1''), QResume 0 Fulfilled None,
                             QResume 0 Fulfilled None] (pass_init True True True)"

section \<open>Remote requests: \<^verbatim>\<open>cdpSend\<close> and the connection's handlers\<close>

text \<open>
  A request is identified by the id \<^verbatim>\<open>cdpSend\<close> gives it.  The model keeps the table of
  pending callbacks, the live request timeouts, and for every request how its promise
  settled, if it did.  A promise settles at most once; the source guards every
  \<^verbatim>\<open>resolve\<close> and \<^verbatim>\<open>reject\<close> by the presence of the pending entry.
\<close>

datatype reply =
    Resolved string           \<comment> \<open>\<^verbatim>\<open>cb.resolve(msg.result)\<close>\<close>
  | RemoteError string        \<comment> \<open>\<^verbatim>\<open>cb.reject(new Error(msg.error.message))\<close>\<close>
  | TimedOut                  \<comment> \<open>the 5 s timeout of the request\<close>

datatype message = Result string | Error string

record conn =
  cdpOpen :: bool                       \<comment> \<open>\<^verbatim>\<open>cdpWs && cdpWs.readyState === WebSocket.OPEN\<close>\<close>
  cdpMessageId :: nat
  cdpPendingCallbacks :: "nat list"     \<comment> \<open>the ids that have a pending entry\<close>
  requestTimers :: "nat list"           \<comment> \<open>the ids whose timeout is still to fire\<close>
  replies :: "(nat \<times> reply) list"        \<comment> \<open>the settled promises\<close>
  refused :: nat                        \<comment> \<open>calls rejected at once with "CDP not connected"\<close>

definition conn_init :: conn where
  "conn_init = \<lparr>cdpOpen = False, cdpMessageId = 1, cdpPendingCallbacks = [],
                 requestTimers = [], replies = [], refused = 0\<rparr>"

definition cdpSend :: "conn \<Rightarrow> conn" where
  "cdpSend s =
     (if \<not> cdpOpen s then s\<lparr>refused := Suc (refused s)\<rparr>
      else (let i = cdpMessageId s
            in s\<lparr>cdpMessageId := Suc i,
                 cdpPendingCallbacks := cdpPendingCallbacks s @ [i],
                 requestTimers := requestTimers s @ [i]\<rparr>))"

definition onMessage :: "nat \<Rightarrow> message \<Rightarrow> conn \<Rightarrow> conn" where
  \<comment> \<open>The \<^verbatim>\<open>'message'\<close> handler for a message with this \<^verbatim>\<open>id\<close>.\<close>
  "onMessage i m s =
     (if i \<noteq> 0 \<and> i \<in> set (cdpPendingCallbacks s)
      then (let s1 = s\<lparr>cdpPendingCallbacks := removeAll i (cdpPendingCallbacks s)\<rparr>
            in case m of
                 Error e \<Rightarrow> s1\<lparr>replies := replies s1 @ [(i, RemoteError e)]\<rparr>
               | Result v \<Rightarrow> s1\<lparr>replies := replies s1 @ [(i, Resolved v)]\<rparr>)
      else s)"

definition onTimeout :: "nat \<Rightarrow> conn \<Rightarrow> conn" where
  \<comment> \<open>The host fires the timeout \<^verbatim>\<open>cdpSend\<close> set for request \<open>i\<close>.\<close>
  "onTimeout i s =
     (if i \<in> set (requestTimers s)
      then (let s1 = s\<lparr>requestTimers := removeAll i (requestTimers s)\<rparr>
            in if i \<in> set (cdpPendingCallbacks s1)
               then s1\<lparr>cdpPendingCallbacks := removeAll i (cdpPendingCallbacks s1),
                      replies := replies s1 @ [(i, TimedOut)]\<rparr>
               else s1)
      else s)"

definition onClose :: "conn \<Rightarrow> conn" where
  \<comment> \<open>The \<^verbatim>\<open>'close'\<close> handler of \<^verbatim>\<open>cdpConnect\<close> in \<^verbatim>\<open>src/extension.js\<close>:
      \<^verbatim>\<open>cdpPendingCallbacks = {}\<close>.\<close>
  "onClose s = s\<lparr>cdpOpen := False, cdpPendingCallbacks := []\<rparr>"

definition onClose_v31 :: "conn \<Rightarrow> conn" where
  \<comment> \<open>The \<^verbatim>\<open>'close'\<close> handler of \<^verbatim>\<open>cdpConnectTarget\<close> in v3.1 removes the entry from the
      pool and leaves \<^verbatim>\<open>entry.callbacks\<close> alone.\<close>
  "onClose_v31 s = s\<lparr>cdpOpen := False\<rparr>"

definition onOpen :: "conn \<Rightarrow> conn" where
  "onOpen s = s\<lparr>cdpOpen := True\<rparr>"

datatype cevent = CSend | CMessage nat message | CTimeout nat | CClose | COpen

fun cstep :: "cevent \<Rightarrow> conn \<Rightarrow> conn" where
  "cstep CSend s = cdpSend s"
| "cstep (CMessage i m) s = onMessage i m s"
| "cstep (CTimeout i) s = onTimeout i s"
| "cstep CClose s = onClose s"
| "cstep COpen s = onOpen s"

fun crun :: "cevent list \<Rightarrow> conn \<Rightarrow> conn" where
  "crun [] s = s"
| "crun (e # es) s = crun es (cstep e s)"

fun cstep_v31 :: "cevent \<Rightarrow> conn \<Rightarrow> conn" where
  "cstep_v31 CClose s = onClose_v31 s"
| "cstep_v31 e s = cstep e s"

fun crun_v31 :: "cevent list \<Rightarrow> conn \<Rightarrow> conn" where
  "crun_v31 [] s = s"
| "crun_v31 (e # es) s = crun_v31 es (cstep_v31 e s)"

definition settled_request :: "nat \<Rightarrow> conn \<Rightarrow> bool" where
  "settled_request i s = (i \<in> fst ` set (replies s))"

definition lost_request :: conn where
  \<comment> \<open>Request 1 is sent, the socket closes, and the request's timeout fires.\<close>
  "lost_request = crun [COpen, CSend, CClose, CTimeout 1] conn_init"

definition forgotten :: "nat \<Rightarrow> conn \<Rightarrow> bool" where
  \<comment> \<open>Request \<open>i\<close> was issued, is unsettled, and nothing refers to it any more.\<close>
  "forgotten i s \<longleftrightarrow>
     i < cdpMessageId s \<and> i \<notin> set (cdpPendingCallbacks s) \<and> i \<notin> fst ` set (replies s)"

definition tracked :: "conn \<Rightarrow> bool" where
  \<comment> \<open>v3.1: every issued request is settled, or pending with its timeout still to fire.\<close>
  "tracked s \<longleftrightarrow>
     list_all (\<lambda>i. i < cdpMessageId s) (requestTimers s) \<and>
     list_all (\<lambda>i. i < cdpMessageId s) (cdpPendingCallbacks s) \<and>
     list_all (\<lambda>i. i \<in> set (requestTimers s)) (cdpPendingCallbacks s) \<and>
     (\<forall>i. 0 < i \<and> i < cdpMessageId s \<longrightarrow>
          i \<in> set (cdpPendingCallbacks s) \<or> i \<in> fst ` set (replies s))"

section \<open>Target discovery and the pool (v3.1)\<close>

text \<open>
  A target descriptor as the endpoint's \<^verbatim>\<open>/json\<close> reports it; a field the descriptor
  lacks is \<open>None\<close>.  The pool is a JavaScript \<^verbatim>\<open>Map\<close> from target id to entry, kept here in
  insertion order.  Sockets are numbered as they are constructed; \<open>closed\<close> lists the
  sockets on which \<^verbatim>\<open>close()\<close> was called.
\<close>

record target =
  tg_id :: string
  tg_type :: string
  tg_title :: "string option"
  tg_url :: "string option"
  webSocketDebuggerUrl :: "string option"

record entry =
  ws :: nat
  title :: string
  etype :: string
  msgId :: nat
  callbacks :: "nat list"
  isWebview :: "bool option"
  observerInjected :: bool

record pool_state =
  cdpTargetPool :: "(string \<times> entry) list"
  next_socket :: nat
  opened :: "(nat \<times> string) list"     \<comment> \<open>socket and the URL it was constructed with\<close>
  closed :: "nat list"

definition pool_init :: pool_state where
  "pool_init = \<lparr>cdpTargetPool = [], next_socket = 0, opened = [], closed = []\<rparr>"

definition truthy :: "string option \<Rightarrow> bool" where
  \<comment> \<open>JavaScript truthiness of a string-valued field that may be absent\<close>
  "truthy v = (case v of None \<Rightarrow> False | Some x \<Rightarrow> x \<noteq> [])"

definition pool_has :: "string \<Rightarrow> pool_state \<Rightarrow> bool" where
  "pool_has k s = (k \<in> fst ` set (cdpTargetPool s))"

definition pool_delete :: "string \<Rightarrow> pool_state \<Rightarrow> pool_state" where
  "pool_delete k s = s\<lparr>cdpTargetPool := filter (\<lambda>p. fst p \<noteq> k) (cdpTargetPool s)\<rparr>"

definition pool_set :: "string \<Rightarrow> entry \<Rightarrow> pool_state \<Rightarrow> pool_state" where
  \<comment> \<open>\<^verbatim>\<open>Map.prototype.set\<close>: an existing key keeps its place, a new one goes last.\<close>
  "pool_set k e s =
     s\<lparr>cdpTargetPool :=
         (if k \<in> fst ` set (cdpTargetPool s)
          then map (\<lambda>p. if fst p = k then (k, e) else p) (cdpTargetPool s)
          else cdpTargetPool s @ [(k, e)])\<rparr>"

definition title_of :: "target \<Rightarrow> string" where
  \<comment> \<open>\<^verbatim>\<open>target.title || target.url || targetId\<close>\<close>
  "title_of t =
     (if truthy (tg_title t) then the (tg_title t)
      else if truthy (tg_url t) then the (tg_url t) else tg_id t)"

definition cdpConnectTarget :: "(string \<Rightarrow> bool) \<Rightarrow> target \<Rightarrow> pool_state \<Rightarrow> pool_state" where
  \<comment> \<open>\<open>okurl u\<close> tells whether \<^verbatim>\<open>new WebSocket(u)\<close> constructs a socket rather than throw;
      with no URL at all it throws.\<close>
  "cdpConnectTarget okurl t s =
     (if pool_has (tg_id t) s then s
      else case webSocketDebuggerUrl t of
             None \<Rightarrow> s
           | Some u \<Rightarrow>
               if \<not> okurl u then s
               else (let w = next_socket s;
                         e = \<lparr>ws = w, title = title_of t, etype = tg_type t, msgId = 1,
                              callbacks = [], isWebview = None, observerInjected = False\<rparr>
                     in pool_set (tg_id t) e
                          (s\<lparr>next_socket := Suc w, opened := opened s @ [(w, u)]\<rparr>)))"

fun cleanup :: "string list \<Rightarrow> (string \<times> entry) list \<Rightarrow> pool_state \<Rightarrow> pool_state" where
  \<comment> \<open>The first loop of \<^verbatim>\<open>cdpDiscoverAndConnect\<close>, over the entries the iterator has yet to
      yield.\<close>
  "cleanup liveIds [] s = s"
| "cleanup liveIds ((k, e) # rest) s =
     cleanup liveIds rest
       (if k \<notin> set liveIds
        then pool_delete k (s\<lparr>closed := closed s @ [ws e]\<rparr>)
        else s)"

definition eligible :: "target \<Rightarrow> bool" where
  \<comment> \<open>a target the second loop does not skip for its URL or type\<close>
  "eligible t \<longleftrightarrow>
     truthy (webSocketDebuggerUrl t) \<and> tg_type t \<noteq> ''worker'' \<and> tg_type t \<noteq> ''service_worker''"

fun connectNew :: "(string \<Rightarrow> bool) \<Rightarrow> target list \<Rightarrow> pool_state \<Rightarrow> pool_state" where
  \<comment> \<open>The second loop of \<^verbatim>\<open>cdpDiscoverAndConnect\<close>.\<close>
  "connectNew okurl [] s = s"
| "connectNew okurl (t # ts) s =
     connectNew okurl ts
       (if \<not> truthy (webSocketDebuggerUrl t) then s
        else if tg_type t = ''worker'' \<or> tg_type t = ''service_worker'' then s
        else if pool_has (tg_id t) s then s
        else cdpConnectTarget okurl t s)"

definition cdpDiscoverAndConnect ::
  "(string \<Rightarrow> bool) \<Rightarrow> bool \<Rightarrow> bool \<Rightarrow> target list option \<Rightarrow> pool_state \<Rightarrow> pool_state" where
  \<comment> \<open>\<open>en\<close> and \<open>cdp\<close> are \<^verbatim>\<open>enabled\<close> and \<^verbatim>\<open>cfg('enableCDP')\<close>; \<open>fetched\<close> is what
      \<^verbatim>\<open>await cdpGetTargets(port)\<close> gives, \<open>None\<close> when it rejects.\<close>
  "cdpDiscoverAndConnect okurl en cdp fetched s =
     (if \<not> en \<or> \<not> cdp then s
      else case fetched of
             None \<Rightarrow> s
           | Some targets \<Rightarrow>
               connectNew okurl targets
                 (cleanup (map tg_id targets) (cdpTargetPool s) s))"

definition onTargetClose :: "string \<Rightarrow> pool_state \<Rightarrow> pool_state" where
  \<comment> \<open>the \<^verbatim>\<open>'close'\<close> handler of an entry's socket\<close>
  "onTargetClose k s = pool_delete k s"

definition cdpDisconnect :: "pool_state \<Rightarrow> pool_state" where
  "cdpDisconnect s = s\<lparr>closed := closed s @ map (\<lambda>p. ws (snd p)) (cdpTargetPool s),
                        cdpTargetPool := []\<rparr>"

datatype devent =
    DDiscover "target list option"
  | DTargetClose string
  | DDisconnect

fun dstep :: "(string \<Rightarrow> bool) \<Rightarrow> devent \<Rightarrow> pool_state \<Rightarrow> pool_state" where
  "dstep okurl (DDiscover f) s = cdpDiscoverAndConnect okurl True True f s"
| "dstep okurl (DTargetClose k) s = onTargetClose k s"
| "dstep okurl DDisconnect s = cdpDisconnect s"

fun drun :: "(string \<Rightarrow> bool) \<Rightarrow> devent list \<Rightarrow> pool_state \<Rightarrow> pool_state" where
  "drun okurl [] s = s"
| "drun okurl (e # es) s = drun okurl es (dstep okurl e s)"

definition pool_keys :: "pool_state \<Rightarrow> string list" where
  "pool_keys s = map fst (cdpTargetPool s)"

definition connectable :: "(string \<Rightarrow> bool) \<Rightarrow> target \<Rightarrow> bool" where
  "connectable okurl t = (case webSocketDebuggerUrl t of None \<Rightarrow> False | Some u \<Rightarrow> okurl u)"

definition page_A :: target where
  "page_A = \<lparr>tg_id = ''A'', tg_type = ''page'', tg_title = Some ''Antigravity'',
             tg_url = Some ''vscode-file://workbench.html'',
             webSocketDebuggerUrl = Some ''ws://127.0.0.1:9222/devtools/page/A''\<rparr>"

definition page_A_attached :: target where
  \<comment> \<open>the same target, reported without a debugger URL\<close>
  "page_A_attached = page_A\<lparr>webSocketDebuggerUrl := None\<rparr>"

definition two_cycles :: pool_state where
  "two_cycles = drun (\<lambda>u. True) [DDiscover (Some [page_A]), DDiscover (Some [page_A_attached])]
                  pool_init"

section \<open>The acceptance scripts evaluated in a target's document\<close>

text \<open>
  A button of the document, as far as the scripts read and write it.  JavaScript strings
  are modelled as \<open>string\<close>, so for code units below 256; \<open>clicks\<close> counts the calls of
  \<^verbatim>\<open>btn.click()\<close>.  What a click handler of the page does to the document is not part of
  the scripts and not modelled.
\<close>

record button =
  textContent :: string
  rendered :: bool                    \<comment> \<open>\<^verbatim>\<open>btn.offsetParent !== null\<close>\<close>
  disabled :: bool
  yoloClicked :: "string option"      \<comment> \<open>\<^verbatim>\<open>btn.dataset.yoloClicked\<close>\<close>
  clicks :: nat

subsection \<open>Strings and numbers of the host language\<close>

definition js_space :: "char \<Rightarrow> bool" where
  \<comment> \<open>white space and line terminators, as \<^verbatim>\<open>trim\<close>, \<^verbatim>\<open>parseInt\<close> and \<^verbatim>\<open>\s\<close> know them\<close>
  "js_space c = (of_char c \<in> {9, 10, 11, 12, 13, 32, 160 :: int})"

definition trimStart :: "string \<Rightarrow> string" where
  "trimStart s = dropWhile js_space s"

definition trimEnd :: "string \<Rightarrow> string" where
  "trimEnd s = rev (dropWhile js_space (rev s))"

definition trim :: "string \<Rightarrow> string" where
  "trim s = trimEnd (trimStart s)"

definition lower :: "char \<Rightarrow> char" where
  \<comment> \<open>case folding of the ASCII letters\<close>
  "lower c = (if 65 \<le> (of_char c :: int) \<and> (of_char c :: int) \<le> 90
              then char_of (of_char c + 32 :: int) else c)"

definition toLowerCase :: "string \<Rightarrow> string" where
  "toLowerCase s = map lower s"

definition is_digit :: "char \<Rightarrow> bool" where
  "is_digit c = (48 \<le> (of_char c :: int) \<and> (of_char c :: int) \<le> 57)"

definition digit_val :: "char \<Rightarrow> int" where
  "digit_val c = of_char c - 48"

definition hex_val :: "char \<Rightarrow> int option" where
  "hex_val c =
     (let n = (of_char c :: int)
      in if 48 \<le> n \<and> n \<le> 57 then Some (n - 48)
         else if 97 \<le> n \<and> n \<le> 102 then Some (n - 87)
         else if 65 \<le> n \<and> n \<le> 70 then Some (n - 55)
         else None)"

function digits :: "int \<Rightarrow> string" where
  \<comment> \<open>the decimal digits of a number that is not negative\<close>
  "digits n = (if n < 10 then [char_of (48 + n)]
               else digits (n div 10) @ [char_of (48 + n mod 10)])"
  by pat_completeness auto
termination
  by (relation "measure nat") auto

declare digits.simps [simp del]

definition toString :: "int \<Rightarrow> string" where
  \<comment> \<open>\<^verbatim>\<open>Number.prototype.toString\<close> on an integer such as \<^verbatim>\<open>Date.now()\<close>\<close>
  "toString i = (if i < 0 then CHR ''-'' # digits (- i) else digits i)"

definition parseInt :: "string \<Rightarrow> int option" where
  \<comment> \<open>\<^verbatim>\<open>parseInt(s)\<close> with no radix; \<open>None\<close> is \<^verbatim>\<open>NaN\<close>\<close>
  "parseInt s =
     (let s1 = trimStart s;
          neg = (s1 \<noteq> [] \<and> hd s1 = CHR ''-'');
          s2 = (if s1 \<noteq> [] \<and> (hd s1 = CHR ''-'' \<or> hd s1 = CHR ''+'') then tl s1 else s1);
          hex = (take 2 s2 = ''0x'' \<or> take 2 s2 = ''0X'');
          ds = (if hex then takeWhile (\<lambda>c. hex_val c \<noteq> None) (drop 2 s2)
                else takeWhile is_digit s2);
          v = (if hex then foldl (\<lambda>a c. 16 * a + the (hex_val c)) 0 ds
               else foldl (\<lambda>a c. 10 * a + digit_val c) 0 ds)
      in if ds = [] then None
         else Some (if neg then - v else v))"

subsection \<open>The script of v3.1: \<^verbatim>\<open>CDP_ACCEPT_SCRIPT\<close>\<close>

definition starts_with :: "string \<Rightarrow> string \<Rightarrow> bool" where
  "starts_with p s = (take (length p) s = p)"

definition accept_label :: "string \<Rightarrow> bool" where
  \<comment> \<open>\<^verbatim>\<open>/^(Run|Accept|Accept All|Allow|Allow Once|Allow This Conversation|Yes)/i.test(text)\<close>\<close>
  "accept_label text =
     (let t = toLowerCase text
      in starts_with ''run'' t \<or> starts_with ''accept'' t \<or> starts_with ''accept all'' t \<or>
         starts_with ''allow'' t \<or> starts_with ''allow once'' t \<or>
         starts_with ''allow this conversation'' t \<or> starts_with ''yes'' t)"

definition in_cooldown :: "int \<Rightarrow> string option \<Rightarrow> bool" where
  \<comment> \<open>\<^verbatim>\<open>btn.dataset.yoloClicked && Date.now() - parseInt(btn.dataset.yoloClicked) < 5000\<close>;
      a comparison with \<^verbatim>\<open>NaN\<close> is false.\<close>
  "in_cooldown now v =
     (case v of
        None \<Rightarrow> False
      | Some str \<Rightarrow> str \<noteq> [] \<and> (case parseInt str of None \<Rightarrow> False | Some t \<Rightarrow> now - t < 5000))"

definition accept_button :: "int \<Rightarrow> int \<Rightarrow> button \<Rightarrow> button \<times> bool" where
  \<comment> \<open>One turn of the script's loop: \<open>now\<close> is the \<^verbatim>\<open>Date.now()\<close> of the cooldown test,
      \<open>stamp\<close> the one written to the data set.  The flag tells whether the button was
      clicked.\<close>
  "accept_button now stamp btn =
     (let text = trim (textContent btn)
      in if \<not> accept_label text then (btn, False)
         else if \<not> rendered btn then (btn, False)
         else if disabled btn then (btn, False)
         else if in_cooldown now (yoloClicked btn) then (btn, False)
         else (btn\<lparr>yoloClicked := Some (toString stamp), clicks := Suc (clicks btn)\<rparr>, True))"

fun accept_loop :: "(nat \<Rightarrow> int \<times> int) \<Rightarrow> nat \<Rightarrow> button list \<Rightarrow> nat \<Rightarrow> button list \<times> nat" where
  \<comment> \<open>The \<^verbatim>\<open>for\<close> loop from index \<open>i\<close>; \<open>clock i\<close> gives the two readings of \<^verbatim>\<open>Date.now()\<close>
      the turn for button \<open>i\<close> makes.\<close>
  "accept_loop clock i [] clicked = ([], clicked)"
| "accept_loop clock i (btn # rest) clicked =
     (let (btn', hit) = accept_button (fst (clock i)) (snd (clock i)) btn;
          (rest', n) = accept_loop clock (Suc i) rest (if hit then Suc clicked else clicked)
      in (btn' # rest', n))"

definition CDP_ACCEPT_SCRIPT :: "(nat \<Rightarrow> int \<times> int) \<Rightarrow> button list \<Rightarrow> button list \<times> nat" where
  \<comment> \<open>One evaluation over the document's buttons: the document afterwards and the
      returned count.\<close>
  "CDP_ACCEPT_SCRIPT clock buttons = accept_loop clock 0 buttons 0"

subsection \<open>The script of v3.0, inline in \<^verbatim>\<open>tryAcceptViaCDP\<close> of \<^verbatim>\<open>src/extension.js\<close>\<close>

definition exact_label :: "string \<Rightarrow> bool" where
  "exact_label text \<longleftrightarrow>
     \<not> (text \<noteq> ''run'' \<and> text \<noteq> ''accept'' \<and> text \<noteq> ''approve'' \<and> text \<noteq> ''continue'' \<and>
        text \<noteq> ''run command'' \<and> text \<noteq> ''accept all'' \<and> text \<noteq> ''yes'' \<and> text \<noteq> ''allow'')"

definition accept_button_v30 :: "button \<Rightarrow> button \<times> bool" where
  "accept_button_v30 btn =
     (let text = toLowerCase (trim (textContent btn))
      in if \<not> exact_label text then (btn, False)
         else if \<not> rendered btn then (btn, False)
         else (btn\<lparr>clicks := Suc (clicks btn)\<rparr>, True))"

fun accept_loop_v30 :: "button list \<Rightarrow> nat \<Rightarrow> button list \<times> nat" where
  "accept_loop_v30 [] clicked = ([], clicked)"
| "accept_loop_v30 (btn # rest) clicked =
     (let (btn', hit) = accept_button_v30 btn;
          (rest', n) = accept_loop_v30 rest (if hit then Suc clicked else clicked)
      in (btn' # rest', n))"

definition accept_script_v30 :: "button list \<Rightarrow> button list \<times> nat" where
  "accept_script_v30 buttons = accept_loop_v30 buttons 0"

definition accept_btn :: button where
  "accept_btn = \<lparr>textContent = ''Accept'', rendered = True, disabled = False,
                 yoloClicked = None, clicks = 0\<rparr>"

definition run_btn :: button where
  \<comment> \<open>a label with the keyboard shortcut appended, as the source's note describes\<close>
  "run_btn = \<lparr>textContent = '' RunAlt+Enter '', rendered = True, disabled = False,
              yoloClicked = None, clicks = 0\<rparr>"

definition clicked_btn :: button where
  \<comment> \<open>\<open>run_btn\<close> after the script activated it with stamp 1001\<close>
  "clicked_btn = run_btn\<lparr>yoloClicked := Some (toString 1001), clicks := 1\<rparr>"

definition cancel_btn :: button where
  "cancel_btn = \<lparr>textContent = ''Cancel'', rendered = True, disabled = False,
                 yoloClicked = None, clicks = 0\<rparr>"

definition sample_doc :: "button list" where
  "sample_doc = [cancel_btn, run_btn]"

definition clock_at :: "int \<Rightarrow> int \<Rightarrow> nat \<Rightarrow> int \<times> int" where
  \<comment> \<open>an evaluation so short that every turn reads the same two times\<close>
  "clock_at a b i = (a, b)"

section \<open>The launch-configuration file: \<^verbatim>\<open>stripJsonComments\<close>\<close>

abbreviation (input) NL :: char where "NL \<equiv> CHR 0x0A"
abbreviation (input) DQ :: char where "DQ \<equiv> CHR 0x22"
abbreviation (input) BS :: char where "BS \<equiv> CHR 0x5C"
abbreviation (input) SL :: char where "SL \<equiv> CHR 0x2F"

subsection \<open>The loop, as written\<close>

function skip_line :: "string \<Rightarrow> nat \<Rightarrow> nat" where
  \<comment> \<open>\<^verbatim>\<open>while (i < text.length && text[i] !== '\n') i++;\<close>\<close>
  "skip_line text i =
     (if i < length text \<and> text ! i \<noteq> NL then skip_line text (Suc i) else i)"
  by pat_completeness auto
termination
  by (relation "measure (\<lambda>(text, i). length text - i)") auto

declare skip_line.simps [simp del]

function strip_loop :: "string \<Rightarrow> nat \<Rightarrow> bool \<Rightarrow> bool \<Rightarrow> string \<Rightarrow> string" where
  \<comment> \<open>The \<^verbatim>\<open>for\<close> loop of \<^verbatim>\<open>stripJsonComments\<close> from index \<open>i\<close>.  Reading \<^verbatim>\<open>text[i + 1]\<close>
      past the end gives \<^verbatim>\<open>undefined\<close>, which is not \<^verbatim>\<open>'/'\<close>.\<close>
  "strip_loop text i inString escape result =
     (if i < length text then
        (let ch = text ! i in
         if escape then strip_loop text (Suc i) inString False (result @ [ch])
         else if ch = BS \<and> inString then strip_loop text (Suc i) inString True (result @ [ch])
         else if ch = DQ then strip_loop text (Suc i) (\<not> inString) escape (result @ [ch])
         else if \<not> inString \<and> ch = SL \<and> Suc i < length text \<and> text ! Suc i = SL then
           strip_loop text (Suc (skip_line text i)) inString escape (result @ [NL])
         else strip_loop text (Suc i) inString escape (result @ [ch]))
      else result)"
  by pat_completeness auto
termination
proof (relation "measure (\<lambda>(text, i, inString, escape, result). length text - i)")
  fix s :: string and i :: nat and inString escape :: bool and result :: string and x :: char
  assume less: "i < length s"
  have "j \<le> skip_line s j" for j
  proof (induction s j rule: skip_line.induct)
    case (1 s j)
    show ?case
    proof (cases "j < length s \<and> s ! j \<noteq> NL")
      case True
      with 1 have "Suc j \<le> skip_line s (Suc j)" by simp
      then show ?thesis using True by (subst skip_line.simps) simp
    next
      case False
      then show ?thesis by (subst skip_line.simps) auto
    qed
  qed
  then have "i \<le> skip_line s i" .
  then show "((s, Suc (skip_line s i), inString, escape, result @ [NL]),
              (s, i, inString, escape, result))
             \<in> measure (\<lambda>(text, i, inString, escape, result). length text - i)"
    using less by simp
qed auto

declare strip_loop.simps [simp del]

definition stripJsonComments :: "string \<Rightarrow> string" where
  \<comment> \<open>\<^verbatim>\<open>src/extension.js\<close>, lines 83 to 114\<close>
  "stripJsonComments text = strip_loop text 0 False False []"

function strip_rest :: "bool \<Rightarrow> bool \<Rightarrow> string \<Rightarrow> string" where
  \<comment> \<open>What the loop appends from a position on, as a function of the rest of the text
      there; \<open>strip_loop_rest\<close> below proves it equal to the loop.\<close>
  "strip_rest inString escape [] = []"
| "strip_rest inString escape (ch # cs) =
     (if escape then ch # strip_rest inString False cs
      else if ch = BS \<and> inString then ch # strip_rest inString True cs
      else if ch = DQ then ch # strip_rest (\<not> inString) escape cs
      else if \<not> inString \<and> ch = SL \<and> take 1 cs = [SL]
        then NL # strip_rest inString escape (drop 1 (dropWhile (\<lambda>x. x \<noteq> NL) cs))
      else ch # strip_rest inString escape cs)"
  by pat_completeness auto
termination
proof (relation "measure (\<lambda>(inString, escape, cs). length cs)")
  fix cs :: string
  have "length (dropWhile (\<lambda>x. x \<noteq> NL) cs) \<le> length cs"
    by (rule length_dropWhile_le)
  then show "\<And>inString escape ch.
      ((inString, escape, drop 1 (dropWhile (\<lambda>x. x \<noteq> NL) cs)), (inString, escape, ch # cs))
        \<in> measure (\<lambda>(inString, escape, cs). length cs)"
    by simp
qed auto

function strip_commas :: "string \<Rightarrow> string" where
  \<comment> \<open>\<^verbatim>\<open>result.replace(/,(\s*[}\]])/g, '$1')\<close>: at a comma followed by white space and a
      closing brace or bracket the match is replaced by its group and the search goes on
      behind it.\<close>
  "strip_commas [] = []"
| "strip_commas (c # cs) =
     (if c = CHR '','' then
        (case dropWhile js_space cs of
           [] \<Rightarrow> c # strip_commas cs
         | d # rest \<Rightarrow>
             if d = CHR ''}'' \<or> d = CHR '']''
             then takeWhile js_space cs @ d # strip_commas rest
             else c # strip_commas cs)
      else c # strip_commas cs)"
  by pat_completeness auto
termination
proof (relation "measure length")
  fix c :: char and cs rest :: string and d :: char
  assume "dropWhile js_space cs = d # rest"
  then have "length (d # rest) \<le> length cs"
    by (metis length_dropWhile_le)
  then show "(rest, c # cs) \<in> measure length" by simp
qed auto

definition stripJsonComments_v31 :: "string \<Rightarrow> string" where
  \<comment> \<open>v3.1 (\<^verbatim>\<open>src/unnamed/part_002\<close>, lines 832 to 862): the same loop, then the removal of
      trailing commas.\<close>
  "stripJsonComments_v31 text = strip_commas (stripJsonComments text)"

subsection \<open>What the description says: string literals, comments, other characters\<close>

text \<open>
  A text read from left to right falls into pieces: a character outside literals and
  comments, a string literal from its opening quote to the next quote that is not
  escaped (or to the end of the text), and a comment from \<^verbatim>\<open>//\<close> to the end of its line
  (or of the text).
\<close>

datatype piece =
    Plain char
  | Literal string bool     \<comment> \<open>the body between the quotes; whether the literal is closed\<close>
  | Comment string bool     \<comment> \<open>the text behind \<^verbatim>\<open>//\<close>; whether a newline ends it\<close>

fun body_ok :: "bool \<Rightarrow> string \<Rightarrow> bool" where
  \<comment> \<open>The body holds no quote except behind a backslash, and the body of a closed
      literal does not end in a backslash that would escape the closing quote.\<close>
  "body_ok shut [] = True"
| "body_ok shut [c] = (c \<noteq> DQ \<and> (c = BS \<longrightarrow> \<not> shut))"
| "body_ok shut (c # d # ds) =
     (if c = BS then body_ok shut ds else c \<noteq> DQ \<and> body_ok shut (d # ds))"

fun render :: "piece \<Rightarrow> string" where
  "render (Plain c) = [c]"
| "render (Literal b shut) = DQ # b @ (if shut then [DQ] else [])"
| "render (Comment t ended) = SL # SL # t @ (if ended then [NL] else [])"

definition render_all :: "piece list \<Rightarrow> string" where
  "render_all ps = concat (map render ps)"

fun stripped :: "piece \<Rightarrow> string" where
  \<comment> \<open>what the description promises for each piece\<close>
  "stripped (Plain c) = [c]"
| "stripped (Literal b shut) = DQ # b @ (if shut then [DQ] else [])"
| "stripped (Comment t ended) = [NL]"

definition stripped_all :: "piece list \<Rightarrow> string" where
  "stripped_all ps = concat (map stripped ps)"

fun pieces_ok :: "piece list \<Rightarrow> bool" where
  \<comment> \<open>The pieces are the left-to-right reading of their text: a plain character is no
      quote and does not begin a comment; only the last piece may be open-ended.\<close>
  "pieces_ok [] = True"
| "pieces_ok (Plain c # ps) =
     (c \<noteq> DQ \<and> (c = SL \<longrightarrow> take 1 (render_all ps) \<noteq> [SL]) \<and> pieces_ok ps)"
| "pieces_ok (Literal b shut # ps) = (body_ok shut b \<and> (shut \<or> ps = []) \<and> pieces_ok ps)"
| "pieces_ok (Comment t ended # ps) = (NL \<notin> set t \<and> (ended \<or> ps = []) \<and> pieces_ok ps)"

subsection \<open>Trailing commas, piece by piece\<close>

fun closer_follows :: "piece list \<Rightarrow> bool" where
  \<comment> \<open>Only white space and comments stand between here and a closing brace or bracket.\<close>
  "closer_follows [] = False"
| "closer_follows (Plain c # ps) =
     (if js_space c then closer_follows ps else c = CHR ''}'' \<or> c = CHR '']'')"
| "closer_follows (Comment t ended # ps) = closer_follows ps"
| "closer_follows (Literal b shut # ps) = False"

fun stripped_v31 :: "piece list \<Rightarrow> string" where
  \<comment> \<open>comments replaced and trailing commas outside literals removed\<close>
  "stripped_v31 [] = []"
| "stripped_v31 (Plain c # ps) =
     (if c = CHR '','' \<and> closer_follows ps then stripped_v31 ps else c # stripped_v31 ps)"
| "stripped_v31 (p # ps) = stripped p @ stripped_v31 ps"

definition no_closer :: "string \<Rightarrow> bool" where
  \<comment> \<open>the text does not begin with white space followed by a closing brace or bracket\<close>
  "no_closer cs =
     (case dropWhile js_space cs of [] \<Rightarrow> True | d # rest \<Rightarrow> d \<noteq> CHR ''}'' \<and> d \<noteq> CHR '']'')"

fun comma_free :: "string \<Rightarrow> bool" where
  \<comment> \<open>no comma of the text is followed by white space and a closing brace or bracket\<close>
  "comma_free [] = True"
| "comma_free (c # cs) = ((c = CHR '','' \<longrightarrow> no_closer cs) \<and> comma_free cs)"

fun literal_comma_free :: "piece \<Rightarrow> bool" where
  "literal_comma_free (Literal b shut) = comma_free b"
| "literal_comma_free _ = True"

definition sample_pieces :: "piece list" where
  \<comment> \<open>an object with a key that holds \<^verbatim>\<open>//\<close> and an escaped quote, a trailing comma and
      a comment\<close>
  "sample_pieces =
     [Plain (CHR ''{''), Literal (''a//b'' @ [BS, DQ] @ ''c'') True, Plain (CHR '':''),
      Plain (CHR ''1''), Plain (CHR '',''), Plain (CHR '' ''), Comment '' note'' True,
      Plain (CHR ''}'')]"

definition sample_text :: string where
  "sample_text = ''{'' @ [DQ] @ ''a//b'' @ [BS, DQ] @ ''c'' @ [DQ] @ '':1, // note'' @ [NL] @ ''}''"

section \<open>The launch-configuration file: \<^verbatim>\<open>ensureDebugPort\<close>\<close>

subsection \<open>The host's \<^verbatim>\<open>JSON.parse\<close>\<close>

text \<open>
  \<^verbatim>\<open>JSON.parse\<close> belongs to the host language, not to the repository.  It is modelled after
  the JSON grammar it implements (ECMA-404): a recursive-descent parser that accepts
  exactly one value between optional white space.  Strings are decoded to their code
  units; a number is kept as the decimal numeral that was read, an integer mantissa and
  a decimal exponent, and stands for the double nearest to it; the members of an object
  are kept in the host's order of its keys.  The recursion is bounded by fuel; running
  out of it is a result of its own, so that a reported syntax error is always a syntax
  error.
\<close>

datatype json =
    JNull
  | JBool bool
  | JNumber int int         \<comment> \<open>mantissa \<open>m\<close> and exponent \<open>e\<close>: the number \<open>m * 10 ^ e\<close>\<close>
  | JString "int list"
  | JArray "json list"
  | JObject "((int list) \<times> json) list"

datatype parsed = Parsed json string | SyntaxError | OutOfFuel

definition json_ws :: "char \<Rightarrow> bool" where
  "json_ws c = (of_char c \<in> {9, 10, 13, 32 :: int})"

definition skip_ws :: "string \<Rightarrow> string" where
  "skip_ws s = dropWhile json_ws s"

definition escape_code :: "char \<Rightarrow> int option" where
  "escape_code e =
     (if e = DQ then Some 34 else if e = BS then Some 92 else if e = SL then Some 47
      else if e = CHR ''b'' then Some 8 else if e = CHR ''f'' then Some 12
      else if e = CHR ''n'' then Some 10 else if e = CHR ''r'' then Some 13
      else if e = CHR ''t'' then Some 9 else None)"

fun hex4 :: "string \<Rightarrow> int option" where
  "hex4 [a, b, c, d] =
     (case (hex_val a, hex_val b, hex_val c, hex_val d) of
        (Some w, Some x, Some y, Some z) \<Rightarrow> Some (((w * 16 + x) * 16 + y) * 16 + z)
      | _ \<Rightarrow> None)"
| "hex4 _ = None"

definition unit_cons :: "int \<Rightarrow> (int list \<times> string) option \<Rightarrow> (int list \<times> string) option" where
  "unit_cons u r = (case r of None \<Rightarrow> None | Some (s, t) \<Rightarrow> Some (u # s, t))"

function string_body :: "string \<Rightarrow> (int list \<times> string) option" where
  \<comment> \<open>the characters of a string behind its opening quote: the decoded string and the
      text behind the closing quote\<close>
  "string_body [] = None"
| "string_body (c # cs) =
     (if c = DQ then Some ([], cs)
      else if c = BS then
        (case cs of
           [] \<Rightarrow> None
         | e # r \<Rightarrow>
             if e = CHR ''u'' then
               (case hex4 (take 4 r) of
                  None \<Rightarrow> None
                | Some u \<Rightarrow> unit_cons u (string_body (drop 4 r)))
             else (case escape_code e of
                     None \<Rightarrow> None
                   | Some u \<Rightarrow> unit_cons u (string_body r)))
      else if (of_char c :: int) < 32 then None
      else unit_cons (of_char c) (string_body cs))"
  by pat_completeness auto
termination
  by (relation "measure length") auto

definition int_of_digits :: "string \<Rightarrow> int" where
  "int_of_digits ds = foldl (\<lambda>a c. 10 * a + digit_val c) 0 ds"

definition parse_number :: "string \<Rightarrow> ((int \<times> int) \<times> string) option" where
  \<comment> \<open>\<^verbatim>\<open>-? (0 | [1-9][0-9]*) (. [0-9]+)? ([eE] [+-]? [0-9]+)?\<close>\<close>
  "parse_number s =
     (let neg = (take 1 s = ''-'');
          s1 = (if neg then drop 1 s else s);
          ip = takeWhile is_digit s1;
          s2 = dropWhile is_digit s1;
          hasf = (take 1 s2 = ''.'');
          fp = (if hasf then takeWhile is_digit (drop 1 s2) else []);
          s3 = (if hasf then dropWhile is_digit (drop 1 s2) else s2);
          hase = (take 1 s3 = ''e'' \<or> take 1 s3 = ''E'');
          s4 = (if hase then drop 1 s3 else s3);
          eneg = (hase \<and> take 1 s4 = ''-'');
          s5 = (if hase \<and> (take 1 s4 = ''-'' \<or> take 1 s4 = ''+'') then drop 1 s4 else s4);
          ep = (if hase then takeWhile is_digit s5 else []);
          s6 = (if hase then dropWhile is_digit s5 else s5);
          mant = int_of_digits (ip @ fp);
          ex = (if eneg then - int_of_digits ep else int_of_digits ep) - int (length fp)
      in if ip = [] \<or> (1 < length ip \<and> hd ip = CHR ''0'') \<or> (hasf \<and> fp = []) \<or> (hase \<and> ep = [])
         then None
         else Some ((if neg then - mant else mant, ex), s6))"

definition array_index :: "int list \<Rightarrow> int option" where
  \<comment> \<open>a key that is the canonical numeral of an array index, up to \<open>2 ^ 32 - 2\<close>\<close>
  "array_index k =
     (let n = foldl (\<lambda>a u. 10 * a + (u - 48)) 0 k
      in if k \<noteq> [] \<and> list_all (\<lambda>u. 48 \<le> u \<and> u \<le> 57) k \<and> (k = [48] \<or> hd k \<noteq> 48) \<and>
            n < 4294967295
         then Some n else None)"

fun insert_index :: "int \<Rightarrow> (int list) \<times> json \<Rightarrow> ((int list) \<times> json) list \<Rightarrow> ((int list) \<times> json) list" where
  \<comment> \<open>a new index key goes behind the smaller index keys\<close>
  "insert_index i kv [] = [kv]"
| "insert_index i kv (p # ps) =
     (case array_index (fst p) of
        None \<Rightarrow> kv # p # ps
      | Some j \<Rightarrow> if i < j then kv # p # ps else p # insert_index i kv ps)"

definition obj_set :: "((int list) \<times> json) list \<Rightarrow> int list \<Rightarrow> json \<Rightarrow> ((int list) \<times> json) list" where
  \<comment> \<open>Defining a property.  The list is in the host's order of the own keys: the index
      keys in ascending order, then the other keys in the order of their creation; an
      existing key keeps its place.\<close>
  "obj_set kvs k v =
     (if k \<in> fst ` set kvs then map (\<lambda>p. if fst p = k then (k, v) else p) kvs
      else case array_index k of
             None \<Rightarrow> kvs @ [(k, v)]
           | Some i \<Rightarrow> insert_index i (k, v) kvs)"

fun parse_value :: "nat \<Rightarrow> string \<Rightarrow> parsed"
and parse_elements :: "nat \<Rightarrow> json list \<Rightarrow> string \<Rightarrow> parsed"
and parse_members :: "nat \<Rightarrow> ((int list) \<times> json) list \<Rightarrow> string \<Rightarrow> parsed" where
  "parse_value 0 s = OutOfFuel"
| "parse_value (Suc n) s =
     (let t = skip_ws s in
      if take 1 t = ''{'' then
        (if take 1 (skip_ws (drop 1 t)) = ''}''
         then Parsed (JObject []) (drop 1 (skip_ws (drop 1 t)))
         else parse_members n [] (drop 1 t))
      else if take 1 t = ''['' then
        (if take 1 (skip_ws (drop 1 t)) = '']''
         then Parsed (JArray []) (drop 1 (skip_ws (drop 1 t)))
         else parse_elements n [] (drop 1 t))
      else if take 1 t = [DQ] then
        (case string_body (drop 1 t) of
           None \<Rightarrow> SyntaxError
         | Some (str, r) \<Rightarrow> Parsed (JString str) r)
      else if take 4 t = ''true'' then Parsed (JBool True) (drop 4 t)
      else if take 5 t = ''false'' then Parsed (JBool False) (drop 5 t)
      else if take 4 t = ''null'' then Parsed JNull (drop 4 t)
      else (case parse_number t of
              None \<Rightarrow> SyntaxError
            | Some ((m, e), r) \<Rightarrow> Parsed (JNumber m e) r))"
| "parse_elements 0 acc s = OutOfFuel"
| "parse_elements (Suc n) acc s =
     (case parse_value n s of
        Parsed v r \<Rightarrow>
          (let t = skip_ws r in
           if take 1 t = '','' then parse_elements n (acc @ [v]) (drop 1 t)
           else if take 1 t = '']'' then Parsed (JArray (acc @ [v])) (drop 1 t)
           else SyntaxError)
      | SyntaxError \<Rightarrow> SyntaxError
      | OutOfFuel \<Rightarrow> OutOfFuel)"
| "parse_members 0 acc s = OutOfFuel"
| "parse_members (Suc n) acc s =
     (let t = skip_ws s in
      if take 1 t \<noteq> [DQ] then SyntaxError
      else case string_body (drop 1 t) of
             None \<Rightarrow> SyntaxError
           | Some (k, r) \<Rightarrow>
               (let r1 = skip_ws r in
                if take 1 r1 \<noteq> '':'' then SyntaxError
                else case parse_value n (drop 1 r1) of
                       Parsed v r2 \<Rightarrow>
                         (let r3 = skip_ws r2 in
                          if take 1 r3 = '','' then parse_members n (obj_set acc k v) (drop 1 r3)
                          else if take 1 r3 = ''}'' then Parsed (JObject (obj_set acc k v)) (drop 1 r3)
                          else SyntaxError)
                     | SyntaxError \<Rightarrow> SyntaxError
                     | OutOfFuel \<Rightarrow> OutOfFuel))"

definition JSON_parse :: "string \<Rightarrow> parsed" where
  "JSON_parse s =
     (case parse_value (2 * length s + 2) s of
        Parsed v r \<Rightarrow> if skip_ws r = [] then Parsed v [] else SyntaxError
      | SyntaxError \<Rightarrow> SyntaxError
      | OutOfFuel \<Rightarrow> OutOfFuel)"

definition consumes :: "parsed \<Rightarrow> string \<Rightarrow> bool" where
  \<comment> \<open>a value that was read leaves a shorter text behind\<close>
  "consumes p s = (case p of Parsed v r \<Rightarrow> length r < length s | _ \<Rightarrow> True)"

subsection \<open>Property access and truthiness\<close>

definition port_key :: "int list" where
  "port_key = map of_char ''remote-debugging-port''"

datatype 'a completion = Value 'a | Throw

definition get_port :: "json \<Rightarrow> json option completion" where
  \<comment> \<open>\<^verbatim>\<open>data['remote-debugging-port']\<close>: a \<^verbatim>\<open>TypeError\<close> on \<^verbatim>\<open>null\<close>, \<^verbatim>\<open>undefined\<close> (\<open>None\<close>) on
      a value that has no such property\<close>
  "get_port data =
     (case data of
        JNull \<Rightarrow> Throw
      | JObject kvs \<Rightarrow> Value (map_of kvs port_key)
      | _ \<Rightarrow> Value None)"

fun truthy_json :: "json option \<Rightarrow> bool" where
  "truthy_json None = False"
| "truthy_json (Some JNull) = False"
| "truthy_json (Some (JBool b)) = b"
| "truthy_json (Some (JNumber m e)) =
     (if 0 \<le> e then m \<noteq> 0 else 10 ^ nat (- e) < \<bar>m\<bar> * 2 ^ 1075)"
| "truthy_json (Some (JString s)) = (s \<noteq> [])"
| "truthy_json (Some (JArray xs)) = True"
| "truthy_json (Some (JObject kvs)) = True"

text \<open>
  A number is falsy when it is zero as a double: when its exact value is at most
  \<open>2 ^ (- 1075)\<close> in magnitude, half of the least positive double.
\<close>

definition set_port :: "json \<Rightarrow> int \<Rightarrow> json" where
  \<comment> \<open>\<^verbatim>\<open>data['remote-debugging-port'] = port\<close>, as far as \<^verbatim>\<open>JSON.stringify\<close> sees it: only
      an object gains the property\<close>
  "set_port data port =
     (case data of
        JObject kvs \<Rightarrow> JObject (obj_set kvs port_key (JNumber port 0))
      | _ \<Rightarrow> data)"

subsection \<open>The file system and the two versions of \<^verbatim>\<open>ensureDebugPort\<close>\<close>

datatype path = AntigravityArgv | VscodeArgv

record files =
  antigravity_argv :: "string option"     \<comment> \<open>\<^verbatim>\<open>~/.antigravity/argv.json\<close>, \<open>None\<close> when absent\<close>
  vscode_argv :: "string option"          \<comment> \<open>\<^verbatim>\<open>~/.vscode/argv.json\<close>\<close>

definition getArgvJsonPath :: "files \<Rightarrow> path" where
  "getArgvJsonPath fs =
     (if antigravity_argv fs \<noteq> None then AntigravityArgv
      else if vscode_argv fs \<noteq> None then VscodeArgv
      else AntigravityArgv)"

definition read_file :: "files \<Rightarrow> path \<Rightarrow> string option" where
  "read_file fs p = (case p of AntigravityArgv \<Rightarrow> antigravity_argv fs | VscodeArgv \<Rightarrow> vscode_argv fs)"

datatype content =
    Text string
  | Stringified json
      \<comment> \<open>\<^verbatim>\<open>JSON.stringify(data, null, 2)\<close> of the host value that this parsed value stands
          for, not spelled out; a number is kept here as the decimal numeral that was
          read and is a double in the host\<close>

datatype port_result =
    Configured json                 \<comment> \<open>the port already in the file is returned\<close>
  | Wrote path content "string option"
      \<comment> \<open>the file was written and \<^verbatim>\<open>null\<close> returned; the command run for "Restart Now"\<close>
  | Failed                          \<comment> \<open>the \<^verbatim>\<open>catch\<close> branch: logged, \<^verbatim>\<open>null\<close> returned\<close>
  | Undetermined                    \<comment> \<open>the parser model ran out of fuel\<close>


definition ensureDebugPort ::
  "int \<Rightarrow> bool \<Rightarrow> bool \<Rightarrow> files \<Rightarrow> port_result" where
  \<comment> \<open>\<^verbatim>\<open>src/extension.js\<close>, lines 116 to 161.  \<open>port\<close> is \<^verbatim>\<open>cfg('cdpPort')\<close>, \<open>writable\<close> tells
      whether \<^verbatim>\<open>mkdirSync\<close> and \<^verbatim>\<open>writeFileSync\<close> succeed, \<open>restart\<close> whether the user
      picks "Restart Now".\<close>
  "ensureDebugPort port writable restart fs =
     (let argvPath = getArgvJsonPath fs;
          p = (case read_file fs argvPath of
                 None \<Rightarrow> Parsed (JObject []) []
               | Some content \<Rightarrow> JSON_parse (stripJsonComments content))
      in case p of
           SyntaxError \<Rightarrow> Failed
         | OutOfFuel \<Rightarrow> Undetermined
         | Parsed data r \<Rightarrow>
             (case get_port data of
                Throw \<Rightarrow> Failed
              | Value v \<Rightarrow>
                  if truthy_json v then Configured (the v)
                  else if \<not> writable then Failed
                  else Wrote argvPath (Stringified (set_port data port))
                         (if restart then Some ''workbench.action.reloadWindow'' else None)))"

definition valid_port :: "int \<Rightarrow> bool" where
  \<comment> \<open>the ports \<^verbatim>\<open>server.listen\<close> takes; on any other it throws\<close>
  "valid_port port = (0 \<le> port \<and> port \<le> 65535)"

definition isPortInUse :: "(int \<Rightarrow> bool) \<Rightarrow> int \<Rightarrow> bool completion" where
  \<comment> \<open>\<open>taken port\<close> tells whether the server's attempt to listen on a valid port ends in
      its \<^verbatim>\<open>error\<close> event.  On a port that is not valid \<^verbatim>\<open>server.listen\<close> throws inside the
      executor of the promise, which is then rejected.\<close>
  "isPortInUse taken port = (if valid_port port then Value (taken port) else Throw)"

fun findAvailablePort_loop :: "(int \<Rightarrow> bool) \<Rightarrow> int \<Rightarrow> int \<Rightarrow> nat \<Rightarrow> int completion" where
  \<comment> \<open>\<^verbatim>\<open>for (let port = startPort; port <= startPort + 6; port++)\<close> with \<open>k\<close> ports left to
      try; the loop tries seven\<close>
  "findAvailablePort_loop taken startPort port 0 = Value startPort"
| "findAvailablePort_loop taken startPort port (Suc k) =
     (case isPortInUse taken port of
        Throw \<Rightarrow> Throw
      | Value inUse \<Rightarrow>
          if \<not> inUse then Value port
          else findAvailablePort_loop taken startPort (port + 1) k)"

definition findAvailablePort :: "(int \<Rightarrow> bool) \<Rightarrow> int \<Rightarrow> int completion" where
  "findAvailablePort taken startPort =
     findAvailablePort_loop taken startPort startPort (Suc (Suc (Suc (Suc (Suc (Suc (Suc 0)))))))"

definition port_entry :: "int \<Rightarrow> string" where
  \<comment> \<open>\<^verbatim>\<open>`\n    "remote-debugging-port": ${port}\n`\<close>\<close>
  "port_entry port =
     [NL] @ ''    '' @ [DQ] @ ''remote-debugging-port'' @ [DQ] @ '': '' @ toString port @ [NL]"

definition lastIndexOf :: "char \<Rightarrow> string \<Rightarrow> nat option" where
  \<comment> \<open>\<open>None\<close> is \<^verbatim>\<open>-1\<close>\<close>
  "lastIndexOf c s =
     (if c \<in> set s then Some (length s - Suc (length (takeWhile (\<lambda>x. x \<noteq> c) (rev s))))
      else None)"

definition comma_class :: "char \<Rightarrow> bool" where
  \<comment> \<open>the character class \<^verbatim>\<open>["\d\w\]}\-]\<close>\<close>
  "comma_class c =
     (let n = (of_char c :: int)
      in c = DQ \<or> (48 \<le> n \<and> n \<le> 57) \<or> (65 \<le> n \<and> n \<le> 90) \<or> (97 \<le> n \<and> n \<le> 122) \<or>
         c = CHR ''_'' \<or> c = CHR '']'' \<or> c = CHR ''}'' \<or> c = CHR ''-'')"

definition needsComma :: "string \<Rightarrow> bool" where
  \<comment> \<open>\<^verbatim>\<open>/["\d\w\]}\-]/.test(before[before.length - 1])\<close>; for an empty \<open>before\<close> the test
      runs on the text \<^verbatim>\<open>undefined\<close>, which holds word characters\<close>
  "needsComma before = (if before = [] then True else comma_class (last before))"

definition insertPortIntoArgv :: "string \<Rightarrow> int \<Rightarrow> string" where
  "insertPortIntoArgv rawContent port =
     (case lastIndexOf (CHR ''}'') rawContent of
        None \<Rightarrow> ''{'' @ port_entry port @ ''}'' @ [NL]
      | Some lastBrace \<Rightarrow>
          (let before = trimEnd (take lastBrace rawContent);
               after = drop lastBrace rawContent
           in before @ (if needsComma before then '','' else []) @ port_entry port @ after))"

definition ensureDebugPort_v31 ::
  "int \<Rightarrow> (int \<Rightarrow> bool) \<Rightarrow> bool \<Rightarrow> bool \<Rightarrow> files \<Rightarrow> port_result" where
  \<comment> \<open>v3.1, \<^verbatim>\<open>src/unnamed/part_002\<close>, lines 904 to 953.  \<open>preferredPort\<close> is \<^verbatim>\<open>cfg('cdpPort')\<close>,
      an integer setting; a rejected port probe is caught like every other error.\<close>
  "ensureDebugPort_v31 preferredPort taken writable restart fs =
     (let argvPath = getArgvJsonPath fs;
          rawContent = (case read_file fs argvPath of None \<Rightarrow> [] | Some content \<Rightarrow> content);
          p = (case read_file fs argvPath of
                 None \<Rightarrow> Parsed (JObject []) []
               | Some content \<Rightarrow> JSON_parse (stripJsonComments_v31 content))
      in case p of
           SyntaxError \<Rightarrow> Failed
         | OutOfFuel \<Rightarrow> Undetermined
         | Parsed data r \<Rightarrow>
             (case get_port data of
                Throw \<Rightarrow> Failed
              | Value v \<Rightarrow>
                  if truthy_json v then Configured (the v)
                  else (case findAvailablePort taken preferredPort of
                          Throw \<Rightarrow> Failed
                        | Value port \<Rightarrow>
                            if \<not> writable then Failed
                            else Wrote argvPath
                                   (Text (if rawContent \<noteq> []
                                          then insertPortIntoArgv rawContent port
                                          else ''{'' @ port_entry port @ ''}'' @ [NL]))
                                   (if restart then Some ''workbench.action.quit'' else None))))"

subsection \<open>A sample file\<close>

definition sample_argv :: string where
  \<comment> \<open>an object with a comment line and a trailing comma\<close>
  "sample_argv =
     ''{'' @ [NL] @ ''  // note'' @ [NL] @ ''  '' @ [DQ] @ ''a'' @ [DQ] @ '': 1,'' @ [NL] @ ''}''"



definition sample_fs :: files where
  "sample_fs = \<lparr>antigravity_argv = Some sample_argv, vscode_argv = None\<rparr>"

definition port_9222_taken :: "int \<Rightarrow> bool" where
  "port_9222_taken p = (p = 9222)"

definition commented_argv :: string where
  \<comment> \<open>an object whose last entry has a comment behind it\<close>
  "commented_argv = ''{'' @ [DQ] @ ''a'' @ [DQ] @ '':1 // c'' @ [NL] @ ''}''"

definition commented_written :: string where
  \<comment> \<open>what v3.1 writes for \<open>commented_argv\<close> and port 9222\<close>
  "commented_written =
     ''{'' @ [DQ] @ ''a'' @ [DQ] @ '':1 // c,'' @ [NL] @ ''    '' @ [DQ] @
     ''remote-debugging-port'' @ [DQ] @ '': 9222'' @ [NL] @ ''}''"

definition no_port_taken :: "int \<Rightarrow> bool" where
  "no_port_taken p = False"


definition commented_fs :: files where
  "commented_fs = \<lparr>antigravity_argv = Some commented_argv, vscode_argv = None\<rparr>"

section \<open>Proofs\<close>

lemma filter_le1:
  "distinct (map fst xs) \<Longrightarrow> list_all (\<lambda>p. P p = (v = Some (fst p))) xs \<Longrightarrow> length (filter P xs) \<le> 1"
proof (induction xs)
  case Nil then show ?case by simp
next
  case (Cons a xs)
  show ?case
  proof (cases "P a")
    case False with Cons show ?thesis by simp
  next
    case True
    with Cons.prems have v: "v = Some (fst a)" by simp
    have "filter P xs = []"
    proof (rule ccontr)
      assume "filter P xs \<noteq> []"
      then obtain b where b: "b \<in> set xs" "P b" by (metis filter_False)
      with Cons.prems(2) have "v = Some (fst b)" by (auto simp: list_all_iff)
      with v have "fst a = fst b" by simp
      with b(1) Cons.prems(1) show False by force
    qed
    with True show ?thesis by simp
  qed
qed

lemma handle_below_Suc [simp]: "handle_below v n \<Longrightarrow> handle_below v (Suc n)"
  by (cases v) auto

lemma inv_clearTimer: "sched_inv s \<Longrightarrow> sched_inv (clearTimer h s)"
  by (auto simp: sched_inv_def clearTimer_def distinct_map_filter list_all_iff split: option.splits)

lemma inv_clearStateful: "sched_inv s \<Longrightarrow> sched_inv (clearStatefulTimers s)"
  by (auto simp: sched_inv_def clearStatefulTimers_def clearTimer_def Let_def distinct_map_filter list_all_iff split: option.splits)

lemma clearStateful_none:
  "sched_inv s \<Longrightarrow> pollTimers (clearStatefulTimers s) = [] \<and> expiryTimers (clearStatefulTimers s) = []"
  by (auto simp: sched_inv_def clearStatefulTimers_def clearTimer_def Let_def pollTimers_def expiryTimers_def list_all_iff filter_empty_conv split: option.splits)

lemma inv_setTimer_other:
  "setTimer k cb ms s = (h, s') \<Longrightarrow> sched_inv s \<Longrightarrow> \<not> is_poll cb \<Longrightarrow> \<not> is_expire cb \<Longrightarrow> sched_inv s'"
  by (fastforce simp: sched_inv_def setTimer_def list_all_iff less_SucI split: option.splits)

lemma inv_irrelevant [simp]:
  "sched_inv (s\<lparr>heartbeatInterval := a\<rparr>) = sched_inv s"
  "sched_inv (s\<lparr>textChangeTimer := b\<rparr>) = sched_inv s"
  "sched_inv (s\<lparr>sleepCheckInterval := c\<rparr>) = sched_inv s"
  "sched_inv (s\<lparr>currentState := d\<rparr>) = sched_inv s"
  "sched_inv (s\<lparr>enabled := e\<rparr>) = sched_inv s"
  "sched_inv (s\<lparr>listening := f\<rparr>) = sched_inv s"
  "sched_inv (s\<lparr>windowFocused := g\<rparr>) = sched_inv s"
  "sched_inv (s\<lparr>lastTickTime := h\<rparr>) = sched_inv s"
  "sched_inv (s\<lparr>config := i\<rparr>) = sched_inv s"
  "sched_inv (s\<lparr>statusBar := j\<rparr>) = sched_inv s"
  "sched_inv (s\<lparr>transitions := k\<rparr>) = sched_inv s"
  "sched_inv (s\<lparr>passes := l\<rparr>) = sched_inv s"
  by (simp_all add: sched_inv_def)

lemma inv_installTimers:
  "sched_inv s \<Longrightarrow> pollTimers s = [] \<Longrightarrow> expiryTimers s = [] \<Longrightarrow> sched_inv (installTimers st s)"
  by (fastforce simp: sched_inv_def installTimers_def setTimer_def updateStatusBar_def pollTimers_def
        expiryTimers_def list_all_iff filter_empty_conv less_SucI split: option.splits)

lemma clearStateful_frame [simp]:
  "currentState (clearStatefulTimers s) = currentState s"
  "heartbeatInterval (clearStatefulTimers s) = heartbeatInterval s"
  "sleepCheckInterval (clearStatefulTimers s) = sleepCheckInterval s"
  "textChangeTimer (clearStatefulTimers s) = textChangeTimer s"
  by (simp_all add: clearStatefulTimers_def clearTimer_def Let_def split: option.splits)

lemma inv_transitionTo: "sched_inv s \<Longrightarrow> sched_inv (transitionTo st trig s)"
proof -
  assume a: "sched_inv s"
  let ?c = "clearStatefulTimers s"
  have 1: "sched_inv ?c" using a by (rule inv_clearStateful)
  have 2: "pollTimers ?c = []" "expiryTimers ?c = []" using clearStateful_none[OF a] by simp_all
  have 3: "\<And>f g. pollTimers (?c\<lparr>currentState := f\<rparr>) = [] \<and> pollTimers (?c\<lparr>currentState := f, transitions := g\<rparr>) = []
     \<and> expiryTimers (?c\<lparr>currentState := f\<rparr>) = [] \<and> expiryTimers (?c\<lparr>currentState := f, transitions := g\<rparr>) = []"
    using 2 by (simp add: pollTimers_def expiryTimers_def)
  show ?thesis
    unfolding transitionTo_def Let_def using 1 3 by (auto intro!: inv_installTimers)
qed

lemma inv_stopHeartbeat: "sched_inv s \<Longrightarrow> sched_inv (stopHeartbeat s)"
  by (auto simp: stopHeartbeat_def inv_clearTimer split: option.splits)

lemma inv_startHeartbeat: "sched_inv s \<Longrightarrow> sched_inv (startHeartbeat s)"
  by (auto simp: startHeartbeat_def Let_def inv_stopHeartbeat split: prod.splits
        dest!: inv_setTimer_other[OF _ inv_stopHeartbeat])

lemma inv_clearAll: "sched_inv s \<Longrightarrow> sched_inv (clearAllTimers s)"
  by (auto simp: clearAllTimers_def Let_def inv_stopHeartbeat inv_clearStateful inv_clearTimer split: option.splits)

lemma inv_toggle: "sched_inv s \<Longrightarrow> sched_inv (toggle s)"
  by (auto simp: toggle_def Let_def updateStatusBar_def inv_clearAll inv_transitionTo inv_startHeartbeat)

lemma inv_runCallback: "sched_inv s \<Longrightarrow> sched_inv (runCallback cb now s)"
  by (cases cb) (auto simp: tryAcceptAll_call_def heartbeatTick_def sleepCheck_def Let_def textChangeFire_def inv_transitionTo)

lemma inv_fire: "sched_inv s \<Longrightarrow> sched_inv (fire h now s)"
  by (auto simp: fire_def inv_runCallback inv_clearTimer split: option.splits)

lemma inv_onText: "sched_inv s \<Longrightarrow> sched_inv (onDidChangeTextDocument s)"
  by (auto simp: onDidChangeTextDocument_def Let_def inv_clearTimer split: prod.splits option.splits
        dest!: inv_setTimer_other)

lemma inv_step: "sched_inv s \<Longrightarrow> sched_inv (step e s)"
  by (cases e)
     (auto simp: trigger_def onDidChangeWindowState_def Let_def inv_transitionTo inv_onText
        onDidChangeConfiguration_def inv_toggle inv_startHeartbeat forceAccept_def
        tryAcceptAll_call_def inv_fire deactivate_def inv_clearAll)

lemma inv_run: "sched_inv s \<Longrightarrow> sched_inv (run es s)"
  by (induction es arbitrary: s) (auto simp: inv_step)

lemma inv_init: "sched_inv (init c now)"
  by (simp add: sched_inv_def init_def)

lemma inv_startSleep: "sched_inv s \<Longrightarrow> sched_inv (startSleepDetection now s)"
  by (auto simp: startSleepDetection_def Let_def inv_clearTimer split: prod.splits option.splits
        dest!: inv_setTimer_other)

lemma inv_activate: "sched_inv (activate c now)"
  using inv_init[of c now]
  by (auto simp: activate_def Let_def updateStatusBar_def inv_startSleep inv_startHeartbeat
        split: prod.splits dest!: inv_setTimer_other)

lemma transitionTo_frame:
  "heartbeatInterval (transitionTo st trig s) = heartbeatInterval s \<and>
   sleepCheckInterval (transitionTo st trig s) = sleepCheckInterval s \<and>
   textChangeTimer (transitionTo st trig s) = textChangeTimer s"
  by (simp add: transitionTo_def installTimers_def Let_def setTimer_def updateStatusBar_def)

lemma filter_filter_other:
  "list_all (\<lambda>p. fst p = h \<longrightarrow> \<not> Q p) xs \<Longrightarrow> filter Q (filter (\<lambda>p. fst p \<noteq> h) xs) = filter Q xs"
  by (induction xs) auto

lemma otherTimers_clearStateful:
  "sched_inv s \<Longrightarrow> otherTimers (clearStatefulTimers s) = otherTimers s"
  unfolding otherTimers_def clearStatefulTimers_def clearTimer_def Let_def sched_inv_def
  by (auto simp: list_all_iff split: option.splits intro!: filter_cong)

lemma otherTimers_installTimers: "otherTimers (installTimers st s) = otherTimers s"
  by (simp add: otherTimers_def installTimers_def setTimer_def updateStatusBar_def)

lemma otherTimers_transitionTo:
  "sched_inv s \<Longrightarrow> otherTimers (transitionTo st trig s) = otherTimers s"
  using otherTimers_clearStateful[of s]
  by (simp add: transitionTo_def Let_def otherTimers_installTimers) (simp add: otherTimers_def)

lemma pollTimers_installTimers:
  "pollTimers s = [] \<Longrightarrow> length (pollTimers (installTimers st s)) = (if st = IDLE then 0 else 1)"
  by (cases st) (simp_all add: pollTimers_def installTimers_def setTimer_def updateStatusBar_def)

lemma expiryTimers_installTimers:
  "expiryTimers s = [] \<Longrightarrow> length (expiryTimers (installTimers st s)) = (if st = IDLE then 0 else 1)"
  by (cases st) (simp_all add: expiryTimers_def installTimers_def setTimer_def updateStatusBar_def)

lemma timers_after_transitionTo:
  assumes "sched_inv s"
  shows "length (pollTimers (transitionTo st trig s)) = (if st = IDLE then 0 else 1)"
    and "length (expiryTimers (transitionTo st trig s)) = (if st = IDLE then 0 else 1)"
proof -
  let ?c = "clearStatefulTimers s"
  have 2: "pollTimers ?c = []" "expiryTimers ?c = []" using clearStateful_none[OF assms] by simp_all
  have 3: "\<And>f g. pollTimers (?c\<lparr>currentState := f\<rparr>) = [] \<and> pollTimers (?c\<lparr>currentState := f, transitions := g\<rparr>) = []
     \<and> expiryTimers (?c\<lparr>currentState := f\<rparr>) = [] \<and> expiryTimers (?c\<lparr>currentState := f, transitions := g\<rparr>) = []"
    using 2 by (simp add: pollTimers_def expiryTimers_def)
  show "length (pollTimers (transitionTo st trig s)) = (if st = IDLE then 0 else 1)"
    unfolding transitionTo_def Let_def using 3 by (simp add: pollTimers_installTimers)
  show "length (expiryTimers (transitionTo st trig s)) = (if st = IDLE then 0 else 1)"
    unfolding transitionTo_def Let_def using 3 by (simp add: expiryTimers_installTimers)
qed

lemma inv_counts: "sched_inv s \<Longrightarrow> length (pollTimers s) \<le> 1 \<and> length (expiryTimers s) \<le> 1"
  unfolding pollTimers_def expiryTimers_def sched_inv_def
  using filter_le1[of "timers s" "\<lambda>p. is_poll (t_cb (snd p))" "pollInterval s"]
        filter_le1[of "timers s" "\<lambda>p. is_expire (t_cb (snd p))" "stateTimeout s"] by simp

text \<open>
  Claim C1.  Whatever sequence of host events, command invocations and timer firings
  follows activation, at most one repeating poll timer and at most one state-expiry timer
  are live.  A call of \<^verbatim>\<open>transitionTo\<close> in any such state first reaches a state with no
  live scheduler timer (\<^verbatim>\<open>clearStatefulTimers\<close>), then installs exactly the timers of the
  new state (one of each for FAST and SLOW, none for IDLE), and leaves every other timer
  and the heartbeat and liveness handles as they were.
\<close>

theorem scheduler_single_timers:
  "let s = run evs (activate c now) in
     length (pollTimers s) \<le> 1 \<and> length (expiryTimers s) \<le> 1 \<and>
     pollTimers (clearStatefulTimers s) = [] \<and> expiryTimers (clearStatefulTimers s) = [] \<and>
     length (pollTimers (transitionTo st trig s)) = (if st = IDLE then 0 else 1) \<and>
     length (expiryTimers (transitionTo st trig s)) = (if st = IDLE then 0 else 1) \<and>
     otherTimers (transitionTo st trig s) = otherTimers s \<and>
     heartbeatInterval (transitionTo st trig s) = heartbeatInterval s \<and>
     sleepCheckInterval (transitionTo st trig s) = sleepCheckInterval s"
proof -
  have inv: "sched_inv (run evs (activate c now))" by (rule inv_run[OF inv_activate])
  show ?thesis
    unfolding Let_def
    using inv_counts[OF inv] clearStateful_none[OF inv] timers_after_transitionTo[OF inv, of st trig]
      otherTimers_transitionTo[OF inv, of st trig] transitionTo_frame[of st trig "run evs (activate c now)"]
    by simp
qed

theorem scheduler_single_timers_witness:
  "length (pollTimers sample_run) \<le> 1 \<and> length (expiryTimers sample_run) \<le> 1 \<and>
   length (pollTimers (transitionTo FAST ''taskStarted'' sample_run)) = 1 \<and>
   length (expiryTimers (transitionTo FAST ''taskStarted'' sample_run)) = 1 \<and>
   otherTimers (transitionTo FAST ''taskStarted'' sample_run) = otherTimers sample_run"
  using scheduler_single_timers
    [of "[EvFire 2 3000, EvTrigger ''terminalOpened'', EvFire 6 13000]" sample_config 0
        FAST "''taskStarted''"]
  unfolding sample_run_def Let_def by simp

lemma sample_run_state:
  "currentState sample_run = SLOW \<and> map fst (timers sample_run) = [0, 1, 7, 8] \<and>
   map_of (timers sample_run) 1 = Some \<lparr>t_kind = Interval, t_cb = CbSleepCheck, t_delay = 5000\<rparr> \<and>
   enabled sample_run \<and> lastTickTime sample_run = 0"
  by (simp add: sample_run_def sample_config_def activate_def init_def startHeartbeat_def
        stopHeartbeat_def startSleepDetection_def setTimer_def updateStatusBar_def Let_def
        fire_def clearTimer_def transitionTo_def clearStatefulTimers_def installTimers_def
        trigger_def)

lemma clearStateful_config [simp]:
  "config (clearStatefulTimers s) = config s"
  "transitions (clearStatefulTimers s) = transitions s"
  "statusBar (clearStatefulTimers s) = statusBar s"
  "enabled (clearStatefulTimers s) = enabled s"
  "lastTickTime (clearStatefulTimers s) = lastTickTime s"
  by (simp_all add: clearStatefulTimers_def clearTimer_def Let_def split: option.splits)

lemma installFAST_timers:
  assumes "pollTimers s = []" and "expiryTimers s = []"
  shows "pollTimers (installTimers FAST s) =
           [(next_handle s, \<lparr>t_kind = Interval, t_cb = CbPoll, t_delay = fastIntervalMs (config s)\<rparr>)]"
    and "expiryTimers (installTimers FAST s) =
           [(Suc (next_handle s),
             \<lparr>t_kind = Timeout, t_cb = CbExpire SLOW, t_delay = fastDurationMs (config s)\<rparr>)]"
    and "pollInterval (installTimers FAST s) = Some (next_handle s)"
    and "stateTimeout (installTimers FAST s) = Some (Suc (next_handle s))"
  using assms
  by (simp_all add: pollTimers_def expiryTimers_def installTimers_def setTimer_def
        updateStatusBar_def)

lemma transitionFAST_timers:
  assumes "sched_inv s"
  shows "map snd (pollTimers (transitionTo FAST trig s)) =
           [\<lparr>t_kind = Interval, t_cb = CbPoll, t_delay = fastIntervalMs (config s)\<rparr>]"
    and "map snd (expiryTimers (transitionTo FAST trig s)) =
           [\<lparr>t_kind = Timeout, t_cb = CbExpire SLOW, t_delay = fastDurationMs (config s)\<rparr>]"
    and "map fst (pollTimers (transitionTo FAST trig s)) = [the (pollInterval (transitionTo FAST trig s))]"
    and "map fst (expiryTimers (transitionTo FAST trig s)) = [the (stateTimeout (transitionTo FAST trig s))]"
proof -
  let ?c = "clearStatefulTimers s"
  have 2: "pollTimers ?c = []" "expiryTimers ?c = []" using clearStateful_none[OF assms] by simp_all
  have 3: "\<And>f g. pollTimers (?c\<lparr>currentState := f\<rparr>) = [] \<and> pollTimers (?c\<lparr>currentState := f, transitions := g\<rparr>) = []
     \<and> expiryTimers (?c\<lparr>currentState := f\<rparr>) = [] \<and> expiryTimers (?c\<lparr>currentState := f, transitions := g\<rparr>) = []"
    using 2 by (simp add: pollTimers_def expiryTimers_def)
  show "map snd (pollTimers (transitionTo FAST trig s)) =
           [\<lparr>t_kind = Interval, t_cb = CbPoll, t_delay = fastIntervalMs (config s)\<rparr>]"
    unfolding transitionTo_def Let_def using 3 by (simp add: installFAST_timers)
  show "map snd (expiryTimers (transitionTo FAST trig s)) =
           [\<lparr>t_kind = Timeout, t_cb = CbExpire SLOW, t_delay = fastDurationMs (config s)\<rparr>]"
    unfolding transitionTo_def Let_def using 3 by (simp add: installFAST_timers)
  show "map fst (pollTimers (transitionTo FAST trig s)) = [the (pollInterval (transitionTo FAST trig s))]"
    unfolding transitionTo_def Let_def using 3 by (simp add: installFAST_timers)
  show "map fst (expiryTimers (transitionTo FAST trig s)) = [the (stateTimeout (transitionTo FAST trig s))]"
    unfolding transitionTo_def Let_def using 3 by (simp add: installFAST_timers)
qed

lemma transitionFAST_record:
  "currentState (transitionTo FAST trig s) = FAST \<and>
   statusBar (transitionTo FAST trig s) = StCheck \<and>
   transitions (transitionTo FAST trig s) =
     (if currentState s = FAST then transitions s
      else transitions s @ [(currentState s, FAST, trig)]) \<and>
   passes (transitionTo FAST trig s) = passes s \<and>
   enabled (transitionTo FAST trig s) = enabled s"
  by (simp add: transitionTo_def installTimers_def Let_def setTimer_def updateStatusBar_def
        clearStatefulTimers_def clearTimer_def split: option.splits)

lemma observers_lastTick [simp]:
  "pollTimers (s\<lparr>lastTickTime := n\<rparr>) = pollTimers s"
  "expiryTimers (s\<lparr>lastTickTime := n\<rparr>) = expiryTimers s"
  "otherTimers (s\<lparr>lastTickTime := n\<rparr>) = otherTimers s"
  by (simp_all add: pollTimers_def expiryTimers_def otherTimers_def)

text \<open>
  Claim C6.  Take any state reached after activation in which the liveness sampler is
  live and the extension enabled.  When the sampler fires and finds more than 10000 ms
  between its time sample and the previous one, it calls \<^verbatim>\<open>transitionTo\<close> for FAST: whatever
  the state was, afterwards the scheduler is in FAST, the one poll timer runs at the fast
  interval, the one expiry timer is the one of FAST, the status shows FAST, the change of
  state is logged, every other timer is as before, and the sample is recorded.  With
  10000 ms or less between the samples the sampler only records the sample.
\<close>

theorem liveness_recovery:
  assumes "s = run evs (activate c t0)"
      and "map_of (timers s) h = Some \<lparr>t_kind = Interval, t_cb = CbSleepCheck, t_delay = 5000\<rparr>"
      and "enabled s"
  shows "(now - lastTickTime s > 10000 \<longrightarrow>
           step (EvFire h now) s = (transitionTo FAST ''sleepRecovery'' s)\<lparr>lastTickTime := now\<rparr> \<and>
           currentState (step (EvFire h now) s) = FAST \<and>
           lastTickTime (step (EvFire h now) s) = now \<and>
           map snd (pollTimers (step (EvFire h now) s)) =
             [\<lparr>t_kind = Interval, t_cb = CbPoll, t_delay = fastIntervalMs (config s)\<rparr>] \<and>
           map snd (expiryTimers (step (EvFire h now) s)) =
             [\<lparr>t_kind = Timeout, t_cb = CbExpire SLOW, t_delay = fastDurationMs (config s)\<rparr>] \<and>
           otherTimers (step (EvFire h now) s) = otherTimers s \<and>
           statusBar (step (EvFire h now) s) = StCheck \<and>
           transitions (step (EvFire h now) s) =
             (if currentState s = FAST then transitions s
              else transitions s @ [(currentState s, FAST, ''sleepRecovery'')])) \<and>
         (now - lastTickTime s \<le> 10000 \<longrightarrow>
           step (EvFire h now) s = s\<lparr>lastTickTime := now\<rparr>)"
proof (intro conjI impI)
  have inv: "sched_inv s" unfolding assms(1) by (rule inv_run[OF inv_activate])
  {
    assume g: "now - lastTickTime s > 10000"
    show e: "step (EvFire h now) s = (transitionTo FAST ''sleepRecovery'' s)\<lparr>lastTickTime := now\<rparr>"
      using assms(2,3) g by (simp add: fire_def sleepCheck_def Let_def)
    show "currentState (step (EvFire h now) s) = FAST"
      unfolding e using transitionFAST_record[of "''sleepRecovery''" s] by simp
    show "lastTickTime (step (EvFire h now) s) = now" unfolding e by simp
    show "map snd (pollTimers (step (EvFire h now) s)) =
             [\<lparr>t_kind = Interval, t_cb = CbPoll, t_delay = fastIntervalMs (config s)\<rparr>]"
      unfolding e using transitionFAST_timers(1)[OF inv, of "''sleepRecovery''"] by simp
    show "map snd (expiryTimers (step (EvFire h now) s)) =
             [\<lparr>t_kind = Timeout, t_cb = CbExpire SLOW, t_delay = fastDurationMs (config s)\<rparr>]"
      unfolding e using transitionFAST_timers(2)[OF inv, of "''sleepRecovery''"] by simp
    show "otherTimers (step (EvFire h now) s) = otherTimers s"
      unfolding e using otherTimers_transitionTo[OF inv, of FAST "''sleepRecovery''"] by simp
    show "statusBar (step (EvFire h now) s) = StCheck"
      unfolding e using transitionFAST_record[of "''sleepRecovery''" s] by simp
    show "transitions (step (EvFire h now) s) =
             (if currentState s = FAST then transitions s
              else transitions s @ [(currentState s, FAST, ''sleepRecovery'')])"
      unfolding e using transitionFAST_record[of "''sleepRecovery''" s] by simp
  }
  assume "now - lastTickTime s \<le> 10000"
  then show "step (EvFire h now) s = s\<lparr>lastTickTime := now\<rparr>"
    using assms(2) by (simp add: fire_def sleepCheck_def Let_def)
qed

lemma sample_run_config:
  "config sample_run = sample_config \<and> transitions sample_run =
     [(IDLE, FAST, ''activate''), (FAST, SLOW, ''fastDurationExpired'')]"
  by (simp add: sample_run_def sample_config_def activate_def init_def startHeartbeat_def
        stopHeartbeat_def startSleepDetection_def setTimer_def updateStatusBar_def Let_def
        fire_def clearTimer_def transitionTo_def clearStatefulTimers_def installTimers_def
        trigger_def)

theorem liveness_recovery_witness:
  "currentState sample_run = SLOW \<and>
   currentState (step (EvFire 1 25000) sample_run) = FAST \<and>
   lastTickTime (step (EvFire 1 25000) sample_run) = 25000 \<and>
   map snd (pollTimers (step (EvFire 1 25000) sample_run)) =
     [\<lparr>t_kind = Interval, t_cb = CbPoll, t_delay = 200\<rparr>] \<and>
   map snd (expiryTimers (step (EvFire 1 25000) sample_run)) =
     [\<lparr>t_kind = Timeout, t_cb = CbExpire SLOW, t_delay = 10000\<rparr>] \<and>
   statusBar (step (EvFire 1 25000) sample_run) = StCheck \<and>
   transitions (step (EvFire 1 25000) sample_run) =
     [(IDLE, FAST, ''activate''), (FAST, SLOW, ''fastDurationExpired''),
      (SLOW, FAST, ''sleepRecovery'')] \<and>
   step (EvFire 1 5000) sample_run = sample_run\<lparr>lastTickTime := 5000\<rparr>"
proof -
  have a: "sample_run = run [EvFire 2 3000, EvTrigger ''terminalOpened'', EvFire 6 13000]
                  (activate sample_config 0)"
    by (rule sample_run_def)
  have b: "map_of (timers sample_run) 1 =
             Some \<lparr>t_kind = Interval, t_cb = CbSleepCheck, t_delay = 5000\<rparr>"
    and c: "enabled sample_run" and d: "lastTickTime sample_run = 0"
    and e: "currentState sample_run = SLOW"
    using sample_run_state by blast+
  note t1 = liveness_recovery [OF a b c, of 25000]
  note t2 = liveness_recovery [OF a b c, of 5000]
  have f: "fastIntervalMs (config sample_run) = 200" "fastDurationMs (config sample_run) = 10000"
    using sample_run_config by (simp_all add: sample_config_def)
  have g: "transitions sample_run =
     [(IDLE, FAST, ''activate''), (FAST, SLOW, ''fastDurationExpired'')]"
    using sample_run_config by blast
  have 2: "step (EvFire 1 5000) sample_run = sample_run\<lparr>lastTickTime := 5000\<rparr>"
    using t2 d by simp
  have gap: "25000 - lastTickTime sample_run > 10000" using d by simp
  note u = t1 [THEN conjunct1, rule_format, OF gap, THEN conjunct2]
  show ?thesis
    using u e f g 2 by simp
qed

subsection \<open>The acceptance pass\<close>

lemma len_cmds: "length ACCEPT_COMMANDS = 5"
  by (simp add: ACCEPT_COMMANDS_def)

lemma actions_of_fresh:
  "list_all (\<lambda>p. fst p < n) (trace s) \<Longrightarrow> n \<le> c \<Longrightarrow> actions_of c s = []"
  by (auto simp: actions_of_def list_all_iff filter_empty_conv)

lemma commands_of_fresh:
  "list_all (\<lambda>p. fst p < n) (trace s) \<Longrightarrow> n \<le> c \<Longrightarrow> commands_of c s = []"
  by (auto simp: commands_of_def list_all_iff filter_empty_conv)

lemma pc_ok_same: "trace s' = trace s \<Longrightarrow> pc_ok s' p = pc_ok s p"
  by (cases p; cases "snd p"; simp add: commands_of_def)

lemma settled_ok_same: "trace s' = trace s \<Longrightarrow> settled_ok s' p = settled_ok s p"
  by (cases p; cases "snd p"; simp add: commands_of_def actions_of_def)

lemma settled_ok_other:
  "trace s' = trace s @ [(c, a)] \<Longrightarrow> fst p \<noteq> c \<Longrightarrow> settled_ok s' p = settled_ok s p"
  by (cases p; cases "snd p"; simp add: commands_of_def actions_of_def)

lemma all_settled_same:
  "trace s' = trace s \<Longrightarrow> list_all (settled_ok s') st = list_all (settled_ok s) st"
  by (induction st) (simp_all add: settled_ok_same[of s' s])

lemma all_pc_same:
  "trace s' = trace s \<Longrightarrow> list_all (pc_ok s') st = list_all (pc_ok s) st"
  by (induction st) (simp_all add: pc_ok_same[of s' s])

lemma all_settled_other:
  "trace s' = trace s @ [(c, a)] \<Longrightarrow> list_all (\<lambda>p. fst p \<noteq> c) st \<Longrightarrow>
   list_all (settled_ok s') st = list_all (settled_ok s) st"
  by (induction st) (simp_all add: settled_ok_other[of s' s c a])

lemma below_Suc: "list_all (\<lambda>p. fst p < (n::nat)) xs \<Longrightarrow> list_all (\<lambda>p. fst p < Suc n) xs"
  by (induction xs) auto

lemma below_neq: "list_all (\<lambda>p. fst p < (n::nat)) xs \<Longrightarrow> list_all (\<lambda>p. fst p \<noteq> n) xs"
  by (induction xs) auto

lemma pass_invI:
  assumes "length (inflight s) \<le> 1" "isAccepting s = (inflight s \<noteq> [])"
    "list_all (\<lambda>p. fst p < next_call s) (inflight s)"
    "list_all (\<lambda>p. fst p < next_call s) (trace s)"
    "list_all (\<lambda>p. fst p < next_call s) (settled s)"
    "list_all (pc_ok s) (inflight s)"
    "list_all (settled_ok s) (settled s)"
    "list_all (\<lambda>p. fst p \<notin> fst ` set (inflight s)) (settled s)"
  shows "pass_inv s"
  using assms by (simp add: pass_inv_def)

lemma pass_invD:
  assumes "pass_inv s"
  shows "length (inflight s) \<le> 1" "isAccepting s = (inflight s \<noteq> [])"
    "list_all (\<lambda>p. fst p < next_call s) (inflight s)"
    "list_all (\<lambda>p. fst p < next_call s) (trace s)"
    "list_all (\<lambda>p. fst p < next_call s) (settled s)"
    "list_all (pc_ok s) (inflight s)"
    "list_all (settled_ok s) (settled s)"
    "list_all (\<lambda>p. fst p \<notin> fst ` set (inflight s)) (settled s)"
  using assms by (simp_all add: pass_inv_def)

lemma inv_skip:
  assumes "pass_inv s"
  shows "pass_inv (s\<lparr>next_call := Suc (next_call s), settled := settled s @ [(next_call s, Skipped)]\<rparr>)"
    (is "pass_inv ?s'")
proof -
  note d = pass_invD[OF assms]
  have a: "actions_of (next_call s) ?s' = []"
    using d(4) actions_of_fresh[of "next_call s" ?s' "next_call s"] by simp
  have t: "trace ?s' = trace s" by simp
  have n: "next_call s \<notin> fst ` set (inflight s)"
    using d(3) by (auto simp: list_all_iff)
  show ?thesis
  proof (rule pass_invI)
    show "list_all (pc_ok ?s') (inflight ?s')"
      using d(6) by (simp add: all_pc_same[OF t])
    show "list_all (settled_ok ?s') (settled ?s')"
      using d(7) a by (simp add: all_settled_same[OF t])
    show "list_all (\<lambda>p. fst p \<notin> fst ` set (inflight ?s')) (settled ?s')"
      using d(8) n by simp
  qed (use d in \<open>simp_all add: below_Suc\<close>)
qed

lemma inv_start:
  assumes "pass_inv s" "\<not> isAccepting s"
  shows "pass_inv (commandLoop (next_call s) 0 (s\<lparr>next_call := Suc (next_call s), isAccepting := True\<rparr>))"
    (is "pass_inv ?s'")
proof -
  note d = pass_invD[OF assms(1)]
  have e: "inflight s = []" using assms(2) d(2) by simp
  have c: "commands_of (next_call s) s = []"
    using d(4) by (intro commands_of_fresh[of "next_call s"]) simp_all
  have o: "list_all (\<lambda>p. fst p \<noteq> next_call s) (settled s)"
    using d(5) by (rule below_neq)
  have t: "trace ?s' = trace s @ [(next_call s, Exec (ACCEPT_COMMANDS ! 0))]"
    by (simp add: commandLoop_def len_cmds)
  have i: "inflight ?s' = [(next_call s, AwaitCommand 0)]" "settled ?s' = settled s"
     "next_call ?s' = Suc (next_call s)" "isAccepting ?s'"
    using e by (simp_all add: commandLoop_def len_cmds)
  have k: "take (Suc 0) ACCEPT_COMMANDS = [ACCEPT_COMMANDS ! 0]"
    by (simp add: ACCEPT_COMMANDS_def)
  have p: "pc_ok ?s' (next_call s, AwaitCommand 0)"
    using c by (simp add: commands_of_def t len_cmds k)
  show ?thesis
  proof (rule pass_invI)
    show "list_all (pc_ok ?s') (inflight ?s')" unfolding i using p by simp
    show "list_all (settled_ok ?s') (settled ?s')"
      unfolding i using d(7) by (simp add: all_settled_other[OF t o])
    show "list_all (\<lambda>p. fst p \<notin> fst ` set (inflight ?s')) (settled ?s')"
      unfolding i using o by simp
    show "list_all (\<lambda>p. fst p < next_call ?s') (trace ?s')"
      unfolding i t using d(4) by (simp add: below_Suc)
    show "list_all (\<lambda>p. fst p < next_call ?s') (settled ?s')"
      unfolding i using d(5) by (simp add: below_Suc)
    show "length (inflight ?s') \<le> 1" unfolding i by simp
    show "isAccepting ?s' = (inflight ?s' \<noteq> [])" unfolding i(1) using i(4) by simp
    show "list_all (\<lambda>p. fst p < next_call ?s') (inflight ?s')" unfolding i by simp
  qed
qed

lemma inv_tryAcceptAll:
  assumes "pass_inv s" shows "pass_inv (tryAcceptAll s)"
proof (cases "\<not> p_enabled s \<or> isAccepting s")
  case True
  then have "tryAcceptAll s = s\<lparr>next_call := Suc (next_call s), settled := settled s @ [(next_call s, Skipped)]\<rparr>"
    by (simp add: tryAcceptAll_def Let_def)
  then show ?thesis using inv_skip[OF assms] by (simp only:)
next
  case False
  then have na: "\<not> isAccepting s" by simp
  from False have eq: "tryAcceptAll s = commandLoop (next_call s) 0 (s\<lparr>next_call := Suc (next_call s), isAccepting := True\<rparr>)"
    by (simp add: tryAcceptAll_def Let_def)
  show ?thesis unfolding eq by (rule inv_start[OF assms na])
qed

lemma inflight_single:
  assumes "pass_inv s" "map_of (inflight s) c = Some p"
  shows "inflight s = [(c, p)]"
proof -
  from assms(1) have "length (inflight s) \<le> 1" by (simp add: pass_inv_def)
  then consider "inflight s = []" | x where "inflight s = [x]"
    by (cases "inflight s") auto
  then show ?thesis using assms(2) by cases (auto split: if_splits)
qed

lemma inv_finish:
  assumes "pass_inv s" "inflight s = [(c, AwaitCDP)]"
  shows "pass_inv (finish c r (suspended c s))" (is "pass_inv ?s'")
proof -
  note d = pass_invD[OF assms(1)]
  have t: "trace ?s' = trace s" by (simp add: finish_def suspended_def Let_def)
  have i: "inflight ?s' = []" "settled ?s' = settled s @ [(c, Completed)]"
    "next_call ?s' = next_call s" "\<not> isAccepting ?s'"
    using assms(2) by (simp_all add: finish_def suspended_def Let_def)
  have p: "commands_of c s = map Exec ACCEPT_COMMANDS" "c < next_call s"
    using d(6) d(3) assms(2) by simp_all
  have q: "settled_ok ?s' (c, Completed)" using p(1) by (simp add: commands_of_def t)
  show ?thesis
  proof (rule pass_invI)
    show "list_all (settled_ok ?s') (settled ?s')"
      unfolding i using d(7) q by (simp add: all_settled_same[OF t])
    show "list_all (\<lambda>p. fst p < next_call ?s') (trace ?s')" unfolding i t using d(4) .
    show "list_all (\<lambda>p. fst p < next_call ?s') (settled ?s')" unfolding i using d(5) p(2) by simp
    show "isAccepting ?s' = (inflight ?s' \<noteq> [])" unfolding i(1) using i(4) by simp
    show "length (inflight ?s') \<le> 1" unfolding i by simp
    show "list_all (\<lambda>p. fst p < next_call ?s') (inflight ?s')" unfolding i by simp
    show "list_all (pc_ok ?s') (inflight ?s')" unfolding i by simp
    show "list_all (\<lambda>p. fst p \<notin> fst ` set (inflight ?s')) (settled ?s')"
      unfolding i by (simp add: list_all_iff)
  qed
qed

lemma inv_next:
  assumes "pass_inv s" "inflight s = [(c, AwaitCommand k)]"
  shows "pass_inv (commandLoop c (Suc k) (suspended c s))" (is "pass_inv ?s'")
proof -
  note d = pass_invD[OF assms(1)]
  have p: "k < length ACCEPT_COMMANDS" "commands_of c s = map Exec (take (Suc k) ACCEPT_COMMANDS)"
    "c < next_call s" "isAccepting s"
    using d(6) d(3) d(2) assms(2) by simp_all
  have o: "list_all (\<lambda>p. fst p \<noteq> c) (settled s)"
    using d(8) assms(2) by (simp add: list_all_iff)
  have i: "settled ?s' = settled s" "next_call ?s' = next_call s" "isAccepting ?s'"
    using p(4) by (simp_all add: commandLoop_def suspended_def tryAcceptViaCDP_call_def Let_def)
  show ?thesis
  proof (cases "Suc k < length ACCEPT_COMMANDS")
    case True
    have t: "trace ?s' = trace s @ [(c, Exec (ACCEPT_COMMANDS ! Suc k))]"
      using True by (simp add: commandLoop_def suspended_def)
    have f: "inflight ?s' = [(c, AwaitCommand (Suc k))]"
      using True assms(2) by (simp add: commandLoop_def suspended_def)
    have q: "pc_ok ?s' (c, AwaitCommand (Suc k))"
      using p(2) True by (simp add: commands_of_def t take_Suc_conv_app_nth[of "Suc k"])
    show ?thesis
    proof (rule pass_invI)
      show "list_all (pc_ok ?s') (inflight ?s')" unfolding f using q by simp
      show "list_all (settled_ok ?s') (settled ?s')"
        unfolding i using d(7) by (simp add: all_settled_other[OF t o])
      show "list_all (\<lambda>p. fst p \<notin> fst ` set (inflight ?s')) (settled ?s')"
        unfolding i f using o by simp
      show "list_all (\<lambda>p. fst p < next_call ?s') (trace ?s')"
        unfolding i t using d(4) p(3) by simp
      show "list_all (\<lambda>p. fst p < next_call ?s') (settled ?s')" unfolding i using d(5) .
      show "length (inflight ?s') \<le> 1" unfolding f by simp
      show "isAccepting ?s' = (inflight ?s' \<noteq> [])" unfolding f using i(3) by simp
      show "list_all (\<lambda>p. fst p < next_call ?s') (inflight ?s')" unfolding i f using p(3) by simp
    qed
  next
    case False
    with p(1) have all: "take (Suc k) ACCEPT_COMMANDS = ACCEPT_COMMANDS" by simp
    have f: "inflight ?s' = [(c, AwaitCDP)]"
      using False assms(2) by (simp add: commandLoop_def suspended_def tryAcceptViaCDP_call_def Let_def)
    have c1: "commands_of c' ?s' = commands_of c' s" for c'
      using False by (simp add: commandLoop_def suspended_def tryAcceptViaCDP_call_def Let_def commands_of_def)
    have a1: "c' \<noteq> c \<Longrightarrow> actions_of c' ?s' = actions_of c' s" for c'
      using False by (simp add: commandLoop_def suspended_def tryAcceptViaCDP_call_def Let_def actions_of_def)
    have so: "fst x \<noteq> c \<Longrightarrow> settled_ok ?s' x = settled_ok s x" for x
      by (cases x; cases "snd x") (simp_all add: c1 a1)
    have sall: "list_all (\<lambda>p. fst p \<noteq> c) st \<Longrightarrow> list_all (settled_ok ?s') st = list_all (settled_ok s) st" for st
      by (induction st) (simp_all add: so)
    have tr: "set (trace ?s') \<subseteq> set (trace s) \<union> {(c, Eval)}"
      using False by (auto simp: commandLoop_def suspended_def tryAcceptViaCDP_call_def Let_def)
    show ?thesis
    proof (rule pass_invI)
      show "list_all (pc_ok ?s') (inflight ?s')" unfolding f using p(2) all by (simp add: c1)
      show "list_all (settled_ok ?s') (settled ?s')"
        unfolding i using d(7) sall[OF o] by simp
      show "list_all (\<lambda>p. fst p \<notin> fst ` set (inflight ?s')) (settled ?s')"
        unfolding i f using o by simp
      show "list_all (\<lambda>p. fst p < next_call ?s') (trace ?s')"
        unfolding i using d(4) p(3) tr by (auto simp: list_all_iff)
      show "list_all (\<lambda>p. fst p < next_call ?s') (settled ?s')" unfolding i using d(5) .
      show "length (inflight ?s') \<le> 1" unfolding f by simp
      show "isAccepting ?s' = (inflight ?s' \<noteq> [])" unfolding f using i(3) by simp
      show "list_all (\<lambda>p. fst p < next_call ?s') (inflight ?s')" unfolding i f using p(3) by simp
    qed
  qed
qed

lemma pc_never_eval: "pass_inv s \<Longrightarrow> map_of (inflight s) c \<noteq> Some AwaitEval"
proof
  assume a: "pass_inv s" "map_of (inflight s) c = Some AwaitEval"
  from inflight_single[OF a] pass_invD(6)[OF a(1)] show False by simp
qed

lemma inv_resume:
  assumes "pass_inv s" shows "pass_inv (resume c r s)"
proof (cases "map_of (inflight s) c")
  case None
  then show ?thesis using assms by (simp add: resume_def)
next
  case (Some p)
  note single = inflight_single[OF assms Some]
  show ?thesis
  proof (cases p)
    case (AwaitCommand k)
    then show ?thesis using inv_next[OF assms, of c k] single Some by (simp add: resume_def)
  next
    case AwaitCDP
    then show ?thesis using inv_finish[OF assms, of c r] single Some by (simp add: resume_def)
  next
    case AwaitEval
    then show ?thesis using Some assms by (simp add: resume_def)
  qed
qed

lemma inv_frame:
  "pass_inv (s\<lparr>p_enabled := b\<rparr>) = pass_inv s"
  "pass_inv (s\<lparr>cdpReady := b\<rparr>) = pass_inv s"
  "pass_inv (s\<lparr>enableCDP := b\<rparr>) = pass_inv s"
  by (simp_all add: pass_inv_def all_pc_same[of "s\<lparr>p_enabled := b\<rparr>" s]
        all_settled_same[of "s\<lparr>p_enabled := b\<rparr>" s]
        all_pc_same[of "s\<lparr>cdpReady := b\<rparr>" s]
        all_settled_same[of "s\<lparr>cdpReady := b\<rparr>" s]
        all_pc_same[of "s\<lparr>enableCDP := b\<rparr>" s]
        all_settled_same[of "s\<lparr>enableCDP := b\<rparr>" s])

lemma inv_pstep: "pass_inv s \<Longrightarrow> pass_inv (pstep e s)"
  by (cases e) (simp_all add: inv_tryAcceptAll inv_resume inv_frame)

lemma inv_prun: "pass_inv s \<Longrightarrow> pass_inv (prun es s)"
  by (induction es arbitrary: s) (simp_all add: inv_pstep)

lemma inv_pass_init: "pass_inv (pass_init e r c)"
  by (simp add: pass_inv_def pass_init_def)

lemma skip_when_accepting:
  "isAccepting s \<Longrightarrow>
     isAccepting (tryAcceptAll s) \<and> trace (tryAcceptAll s) = trace s \<and>
     inflight (tryAcceptAll s) = inflight s \<and>
     settled (tryAcceptAll s) = settled s @ [(next_call s, Skipped)]"
  by (simp add: tryAcceptAll_def Let_def)

lemma resume_settles:
  assumes "pass_inv s" "settled (resume c r s) \<noteq> settled s"
  shows "\<not> isAccepting (resume c r s) \<and> inflight (resume c r s) = [] \<and>
         settled (resume c r s) = settled s @ [(c, Completed)]"
proof (cases "map_of (inflight s) c")
  case None
  then show ?thesis using assms(2) by (simp add: resume_def)
next
  case (Some p)
  note single = inflight_single[OF assms(1) Some]
  show ?thesis
  proof (cases p)
    case (AwaitCommand k)
    then have "settled (resume c r s) = settled s"
      using Some by (simp add: resume_def commandLoop_def suspended_def tryAcceptViaCDP_call_def Let_def)
    then show ?thesis using assms(2) by simp
  next
    case AwaitCDP
    then show ?thesis using Some single
      by (simp add: resume_def finish_def suspended_def Let_def)
  next
    case AwaitEval
    then show ?thesis using Some assms(2) by (simp add: resume_def)
  qed
qed

text \<open>
  Claim C2.  In every reachable state at most one call of \<^verbatim>\<open>tryAcceptAll\<close> is suspended, and
  \<^verbatim>\<open>isAccepting\<close> is true exactly while one is.  A call made while the guard is set
  returns at once: it executes no command, sends no evaluation, and leaves the suspended
  call and the guard as they are.  Whenever resuming the call that holds the guard makes
  it settle, whether what it awaited was fulfilled or rejected, the guard is false
  afterwards and no call is left suspended.
\<close>

theorem reentrancy_guard:
  "let s = prun evs (pass_init en ready cdp) in
     length (inflight s) \<le> 1 \<and> isAccepting s = (inflight s \<noteq> []) \<and>
     (isAccepting s \<longrightarrow>
        isAccepting (tryAcceptAll s) \<and> trace (tryAcceptAll s) = trace s \<and>
        inflight (tryAcceptAll s) = inflight s \<and>
        settled (tryAcceptAll s) = settled s @ [(next_call s, Skipped)]) \<and>
     (settled (resume c r s) \<noteq> settled s \<longrightarrow>
        \<not> isAccepting (resume c r s) \<and> inflight (resume c r s) = [] \<and>
        settled (resume c r s) = settled s @ [(c, Completed)])"
proof -
  have inv: "pass_inv (prun evs (pass_init en ready cdp))"
    by (rule inv_prun[OF inv_pass_init])
  show ?thesis
    unfolding Let_def
    using pass_invD(1,2)[OF inv] skip_when_accepting[of "prun evs (pass_init en ready cdp)"]
      resume_settles[OF inv, of c r]
    by blast
qed

lemma completed_ran_all:
  assumes "pass_inv s" "(c, Completed) \<in> set (settled s)"
  shows "commands_of c s = map Exec ACCEPT_COMMANDS"
  using pass_invD(7)[OF assms(1)] assms(2) by (auto simp: list_all_iff)

lemma no_exec_step: "no_exec s \<Longrightarrow> no_exec (pstep_v31 e s)"
  by (cases e)
     (auto simp: no_exec_def tryAcceptAll_v31_def resume_v31_def tryAcceptViaCDP_next_def
        finish_def suspended_def Let_def split: option.splits pc.splits)

lemma no_exec_run: "no_exec s \<Longrightarrow> no_exec (prun_v31 es s)"
  by (induction es arbitrary: s) (simp_all add: no_exec_step)

lemma v31_no_commands: "commands_of c (prun_v31 es (pass_init en ready cdp)) = []"
proof -
  have "no_exec (prun_v31 es (pass_init en ready cdp))"
    by (rule no_exec_run) (simp add: no_exec_def pass_init_def)
  then show ?thesis by (auto simp: no_exec_def commands_of_def list_all_iff filter_empty_conv)
qed

text \<open>
  Claim C3.  In the \<^verbatim>\<open>tryAcceptAll\<close> of \<^verbatim>\<open>src/extension.js\<close> every completed pass has
  executed exactly the five commands of \<^verbatim>\<open>ACCEPT_COMMANDS\<close>, each once and in that order,
  whichever of them were rejected: there the claim holds.  The \<^verbatim>\<open>tryAcceptAll\<close> of v3.1
  does not meet it.  That version still declares \<^verbatim>\<open>ACCEPT_COMMANDS\<close> as its command path
  and checks the five commands at start, but no run of it executes a host command.
\<close>

theorem pass_commands_by_version:
  "(\<forall>c. (c, Completed) \<in> set (settled (prun evs (pass_init en ready cdp))) \<longrightarrow>
        commands_of c (prun evs (pass_init en ready cdp)) = map Exec ACCEPT_COMMANDS) \<and>
   distinct ACCEPT_COMMANDS \<and> length ACCEPT_COMMANDS = 5 \<and>
   (\<forall>c. commands_of c (prun_v31 evs' (pass_init en' ready' cdp')) = [])"
proof -
  have inv: "pass_inv (prun evs (pass_init en ready cdp))"
    by (rule inv_prun[OF inv_pass_init])
  have d: "distinct ACCEPT_COMMANDS" by (simp add: ACCEPT_COMMANDS_def)
  show ?thesis using completed_ran_all[OF inv] d len_cmds v31_no_commands by blast
qed

lemmas pass_defs = pass_init_def tryAcceptAll_def commandLoop_def resume_def suspended_def
  finish_def tryAcceptViaCDP_call_def Let_def ACCEPT_COMMANDS_def commands_of_def actions_of_def
  tryAcceptAll_v31_def resume_v31_def tryAcceptViaCDP_next_def

lemma awaiting_cdp_state:
  "isAccepting awaiting_cdp \<and> inflight awaiting_cdp = [(0, AwaitCDP)] \<and> settled awaiting_cdp = [] \<and>
   actions_of 0 awaiting_cdp = map Exec ACCEPT_COMMANDS @ [Eval]"
  by (simp add: awaiting_cdp_def pass_defs)

theorem reentrancy_guard_witness:
  "isAccepting awaiting_cdp \<and>
   isAccepting (tryAcceptAll awaiting_cdp) \<and> trace (tryAcceptAll awaiting_cdp) = trace awaiting_cdp \<and>
   settled (tryAcceptAll awaiting_cdp) = [(1, Skipped)] \<and>
   settled (resume 0 Rejected awaiting_cdp) = [(0, Completed)] \<and>
   \<not> isAccepting (resume 0 Rejected awaiting_cdp)"
proof -
  have 1: "isAccepting awaiting_cdp" "settled awaiting_cdp = []" "next_call awaiting_cdp = 1"
    by (simp_all add: awaiting_cdp_def pass_defs)
  have 2: "settled (resume 0 Rejected awaiting_cdp) = [(0, Completed)]"
    by (simp add: awaiting_cdp_def pass_defs)
  show ?thesis
    using 1 2 reentrancy_guard [of "[PInvoke, PResume 0 Rejected, PResume 0 Fulfilled,
       PResume 0 Fulfilled, PResume 0 Rejected, PResume 0 Fulfilled]" True True True 0 Rejected]
    unfolding Let_def awaiting_cdp_def [symmetric] by simp
qed

text \<open>
  A completed pass of v3.1 with one pooled target: it has evaluated the script in that
  target and executed none of the five commands.
\<close>

theorem pass_v31_runs_no_command:
  "(0, Completed) \<in> set (settled pass_v31_done) \<and>
   commands_of 0 pass_v31_done \<noteq> map Exec ACCEPT_COMMANDS \<and>
   actions_of 0 pass_v31_done = [EvalOn ''page-1'']"
  by (simp add: pass_v31_done_def pass_defs)

theorem pass_commands_by_version_witness:
  "(0, Completed) \<in> set (settled (resume 0 Rejected awaiting_cdp)) \<and>
   commands_of 0 (resume 0 Rejected awaiting_cdp) = map Exec ACCEPT_COMMANDS \<and>
   commands_of 0 pass_v31_done = []"
proof -
  have 2: "settled (resume 0 Rejected awaiting_cdp) = [(0, Completed)]"
    by (simp add: awaiting_cdp_def pass_defs)
  have 3: "resume 0 Rejected awaiting_cdp = prun [PInvoke, PResume 0 Rejected, PResume 0 Fulfilled,
       PResume 0 Fulfilled, PResume 0 Rejected, PResume 0 Fulfilled, PResume 0 Rejected] (pass_init True True True)"
    by (simp add: awaiting_cdp_def)
  show ?thesis
    using 2 pass_commands_by_version [of "[PInvoke, PResume 0 Rejected, PResume 0 Fulfilled,
       PResume 0 Fulfilled, PResume 0 Rejected, PResume 0 Fulfilled, PResume 0 Rejected]" True True True
       "[QInvoke (Some ''page-1''), QResume 0 Fulfilled None, QResume 0 Fulfilled None]" True True True]
    unfolding 3 [symmetric] pass_v31_done_def [symmetric] by simp
qed

subsection \<open>Remote requests\<close>

lemma forgotten_step: "forgotten i s \<Longrightarrow> forgotten i (cstep e s)"
  by (cases e)
     (auto simp: forgotten_def cdpSend_def onMessage_def onTimeout_def onClose_def onOpen_def
        Let_def split: message.splits)

lemma forgotten_run: "forgotten i s \<Longrightarrow> forgotten i (crun es s)"
  by (induction es arbitrary: s) (simp_all add: forgotten_step)

text \<open>
  Claim C5 does not hold of \<^verbatim>\<open>src/extension.js\<close>.  After a request is sent, the socket
  closes and the request's own timeout fires, the request has neither a reply nor a
  pending entry nor a timer, and no later sequence of sends, messages, timeouts, closes
  and reconnects settles it: the \<^verbatim>\<open>'close'\<close> handler emptied the table the timeout looks
  the request up in.
\<close>

theorem request_never_settles:
  "\<not> settled_request 1 lost_request \<and> 1 \<notin> set (requestTimers lost_request) \<and>
   1 \<notin> set (cdpPendingCallbacks lost_request) \<and>
   (\<forall>es. \<not> settled_request 1 (crun es lost_request))"
proof -
  have f: "forgotten 1 lost_request"
    by (simp add: forgotten_def lost_request_def conn_init_def cdpSend_def onClose_def onOpen_def onTimeout_def Let_def)
  have "forgotten 1 (crun es lost_request)" for es by (rule forgotten_run[OF f])
  then have "\<forall>es. \<not> settled_request 1 (crun es lost_request)"
    by (simp add: forgotten_def settled_request_def)
  moreover have "1 \<notin> set (requestTimers lost_request)"
    by (simp add: lost_request_def conn_init_def cdpSend_def onClose_def onOpen_def onTimeout_def Let_def)
  ultimately show ?thesis using f by (simp add: forgotten_def settled_request_def)
qed

text \<open>
  The v3.1 connection keeps the callbacks of a closed entry, so there the timeout of a
  request finds its pending entry: once its timeout has fired, every issued request is
  settled.
\<close>

lemma tracked_step:
  assumes "tracked s" shows "tracked (cstep_v31 e s)"
proof (cases e)
  case CSend
  then show ?thesis using assms
    by (auto simp: tracked_def cdpSend_def Let_def list_all_iff less_SucI less_Suc_eq)
next
  case (CMessage i m)
  then show ?thesis using assms
    by (cases m) (auto simp: tracked_def onMessage_def Let_def list_all_iff)
next
  case (CTimeout i)
  then show ?thesis using assms
    by (auto simp: tracked_def onTimeout_def Let_def list_all_iff)
next
  case CClose
  then show ?thesis using assms by (simp add: tracked_def onClose_v31_def)
next
  case COpen
  then show ?thesis using assms by (simp add: tracked_def onOpen_def)
qed

lemma tracked_run: "tracked s \<Longrightarrow> tracked (crun_v31 es s)"
  by (induction es arbitrary: s) (simp_all add: tracked_step)

lemma v31_request_settles:
  assumes "0 < i" "i < cdpMessageId (crun_v31 es conn_init)"
  shows "settled_request i (onTimeout i (crun_v31 es conn_init))"
proof -
  have "tracked (crun_v31 es conn_init)"
    by (rule tracked_run) (auto simp: tracked_def conn_init_def)
  then show ?thesis using assms
    by (auto simp: tracked_def onTimeout_def settled_request_def Let_def list_all_iff)
qed

subsection \<open>The target pool\<close>

lemma keys_delete [simp]: "pool_keys (pool_delete k s) = filter (\<lambda>x. x \<noteq> k) (pool_keys s)"
  by (simp add: pool_keys_def pool_delete_def filter_map comp_def)

lemma keys_closed_upd [simp]: "pool_keys (s\<lparr>closed := c\<rparr>) = pool_keys s"
  by (simp add: pool_keys_def)

lemma keys_cleanup:
  "pool_keys (cleanup live rest s) =
     filter (\<lambda>k. \<not> (k \<in> fst ` set rest \<and> k \<notin> set live)) (pool_keys s)"
proof (induction rest arbitrary: s)
  case Nil
  then show ?case by simp
next
  case (Cons p rest)
  obtain k e where p: "p = (k, e)" by (cases p)
  show ?case unfolding p
    by (auto simp: Cons.IH intro!: filter_cong)
qed

lemma closed_delete [simp]: "closed (pool_delete k s) = closed s"
  by (simp add: pool_delete_def)

lemma closed_cleanup:
  "closed (cleanup live rest s) =
     closed s @ map (\<lambda>p. ws (snd p)) (filter (\<lambda>p. fst p \<notin> set live) rest)"
proof (induction rest arbitrary: s)
  case Nil
  then show ?case by simp
next
  case (Cons p rest)
  obtain k e where p: "p = (k, e)" by (cases p)
  show ?case unfolding p by (simp add: Cons.IH)
qed

lemma keys_connect:
  "pool_keys (cdpConnectTarget okurl t s) =
     (if tg_id t \<in> set (pool_keys s) \<or> \<not> connectable okurl t then pool_keys s
      else pool_keys s @ [tg_id t])"
  by (auto simp: cdpConnectTarget_def pool_has_def pool_keys_def pool_set_def connectable_def
        Let_def split: option.splits)

lemma closed_connect [simp]: "closed (cdpConnectTarget okurl t s) = closed s"
  by (simp add: cdpConnectTarget_def pool_set_def Let_def split: option.splits)

lemma pool_has_keys: "pool_has k s = (k \<in> set (pool_keys s))"
  by (simp add: pool_has_def pool_keys_def)

lemma keys_connectNew:
  "set (pool_keys (connectNew okurl ts s)) =
     set (pool_keys s) \<union> tg_id ` {t \<in> set ts. eligible t \<and> connectable okurl t}"
proof (induction ts arbitrary: s)
  case Nil
  then show ?case by simp
next
  case (Cons t ts)
  show ?case
    by (auto simp: Cons.IH keys_connect pool_has_keys eligible_def)
qed

lemma distinct_connectNew:
  "distinct (pool_keys s) \<Longrightarrow> distinct (pool_keys (connectNew okurl ts s))"
  by (induction ts arbitrary: s) (auto simp: keys_connect pool_has_keys)

lemma closed_connectNew [simp]: "closed (connectNew okurl ts s) = closed s"
  by (induction ts arbitrary: s) auto

lemma discovery_keys:
  "set (pool_keys (cdpDiscoverAndConnect okurl True True (Some ts) s)) =
     (set (pool_keys s) \<inter> tg_id ` set ts) \<union>
     tg_id ` {t \<in> set ts. eligible t \<and> connectable okurl t}"
proof -
  have c: "pool_keys (cleanup (map tg_id ts) (cdpTargetPool s) s) =
             filter (\<lambda>k. k \<in> tg_id ` set ts) (pool_keys s)"
    unfolding keys_cleanup by (rule filter_cong) (auto simp: pool_keys_def)
  show ?thesis
    by (simp add: cdpDiscoverAndConnect_def keys_connectNew c) blast
qed

lemma discovery_distinct:
  "distinct (pool_keys s) \<Longrightarrow>
   distinct (pool_keys (cdpDiscoverAndConnect okurl en cdp f s))"
  by (auto simp: cdpDiscoverAndConnect_def distinct_connectNew keys_cleanup split: option.splits)

lemma discovery_closed:
  "closed (cdpDiscoverAndConnect okurl True True (Some ts) s) =
     closed s @ map (\<lambda>p. ws (snd p)) (filter (\<lambda>p. fst p \<notin> tg_id ` set ts) (cdpTargetPool s))"
  by (simp add: cdpDiscoverAndConnect_def closed_cleanup)

lemma distinct_dstep:
  assumes "distinct (pool_keys s)" shows "distinct (pool_keys (dstep okurl e s))"
proof (cases e)
  case (DDiscover f)
  then show ?thesis using discovery_distinct[OF assms] by simp
next
  case (DTargetClose k)
  then show ?thesis using assms by (simp add: onTargetClose_def)
next
  case DDisconnect
  then show ?thesis by (simp add: cdpDisconnect_def pool_keys_def)
qed

lemma distinct_drun: "distinct (pool_keys s) \<Longrightarrow> distinct (pool_keys (drun okurl es s))"
  by (induction es arbitrary: s) (simp_all add: distinct_dstep)

text \<open>
  Claim C4, as amended.  In any pool state reached from the empty pool by discovery
  cycles, socket closes and disconnects, one more discovery cycle over a reported list
  leaves as keys exactly the previously pooled ids that are still reported, together with
  the ids of the reported targets that are eligible (a debugger URL, not a worker) and
  whose socket could be constructed.  No id has two entries, and the sockets closed by
  the cycle are those of the entries whose id is not reported.  When every previously
  pooled id that is still reported is itself eligible and connectable in this report, the
  keys are exactly the eligible, connectable reported ids.
\<close>

theorem pool_after_discovery:
  "let s = drun okurl evs pool_init;
       s' = cdpDiscoverAndConnect okurl True True (Some targets) s;
       fresh = tg_id ` {t \<in> set targets. eligible t \<and> connectable okurl t}
   in set (pool_keys s') = (set (pool_keys s) \<inter> tg_id ` set targets) \<union> fresh \<and>
      distinct (pool_keys s') \<and>
      closed s' = closed s @
        map (\<lambda>p. ws (snd p)) (filter (\<lambda>p. fst p \<notin> tg_id ` set targets) (cdpTargetPool s)) \<and>
      (set (pool_keys s) \<inter> tg_id ` set targets \<subseteq> fresh \<longrightarrow> set (pool_keys s') = fresh)"
proof -
  have d: "distinct (pool_keys (drun okurl evs pool_init))"
    by (rule distinct_drun) (simp add: pool_keys_def pool_init_def)
  show ?thesis
    unfolding Let_def
    using discovery_keys[of okurl targets "drun okurl evs pool_init"]
      discovery_distinct[OF d, of okurl True True "Some targets"]
      discovery_closed[of okurl targets "drun okurl evs pool_init"]
    by auto
qed

lemmas pool_defs = two_cycles_def pool_init_def page_A_def page_A_attached_def
  cdpDiscoverAndConnect_def cdpConnectTarget_def pool_has_def pool_set_def pool_delete_def
  truthy_def title_of_def Let_def pool_keys_def eligible_def connectable_def

text \<open>
  The claim C4 as stated fails: a pooled target that the next report lists without a
  debugger URL stays in the pool, because the cycle removes an entry only when its id is
  absent from the report.
\<close>

theorem pool_keeps_attached_target:
  "pool_keys two_cycles = [''A''] \<and>
   filter eligible [page_A_attached] = [] \<and> closed two_cycles = []"
  by (simp add: pool_defs)

theorem pool_after_discovery_witness:
  "pool_keys (drun (\<lambda>u. True) [DDiscover (Some [page_A])] pool_init) = [''A''] \<and>
   pool_keys (cdpDiscoverAndConnect (\<lambda>u. True) True True (Some [])
      (drun (\<lambda>u. True) [DDiscover (Some [page_A])] pool_init)) = [] \<and>
   closed (cdpDiscoverAndConnect (\<lambda>u. True) True True (Some [])
      (drun (\<lambda>u. True) [DDiscover (Some [page_A])] pool_init)) = [0]"
  using pool_after_discovery [of "\<lambda>u. True" "[DDiscover (Some [page_A])]" "[]"]
  by (simp add: pool_defs)

subsection \<open>The acceptance scripts\<close>

lemma digit_char:
  "0 \<le> n \<Longrightarrow> n < 10 \<Longrightarrow>
   is_digit (char_of (48 + n)) \<and> digit_val (char_of (48 + n)) = (n::int)"
proof -
  assume a: "0 \<le> n" "n < 10"
  then have "(48 + n) mod 256 = 48 + n" by simp
  then have "(of_char (char_of (48 + n)) :: int) = 48 + n" by (simp add: of_char_of)
  then show ?thesis using a by (simp add: is_digit_def digit_val_def)
qed

lemma digits_all: "0 \<le> n \<Longrightarrow> list_all is_digit (digits n)"
proof (induction n rule: digits.induct)
  case (1 n)
  show ?case
  proof (cases "n < 10")
    case True
    then show ?thesis using 1(2) by (subst digits.simps) (simp add: digit_char)
  next
    case False
    with 1 have "list_all is_digit (digits (n div 10))" by simp
    moreover have "is_digit (char_of (48 + n mod 10))" by (simp add: digit_char)
    ultimately show ?thesis using False by (subst digits.simps) simp
  qed
qed

lemma digits_ne: "digits n \<noteq> []"
  by (subst digits.simps) simp

lemma digits_val: "0 \<le> n \<Longrightarrow> foldl (\<lambda>a c. 10 * a + digit_val c) 0 (digits n) = n"
proof (induction n rule: digits.induct)
  case (1 n)
  show ?case
  proof (cases "n < 10")
    case True
    then show ?thesis using 1(2) by (subst digits.simps) (simp add: digit_char)
  next
    case False
    with 1 have "foldl (\<lambda>a c. 10 * a + digit_val c) 0 (digits (n div 10)) = n div 10" by simp
    moreover have "digit_val (char_of (48 + n mod 10)) = n mod 10" by (simp add: digit_char)
    ultimately show ?thesis using False by (subst digits.simps) simp
  qed
qed

lemma digit_not_special:
  "is_digit c \<Longrightarrow> \<not> js_space c \<and> c \<noteq> CHR ''-'' \<and> c \<noteq> CHR ''+'' \<and> c \<noteq> CHR ''x'' \<and> c \<noteq> CHR ''X''"
  by (auto simp: is_digit_def js_space_def)

lemma digits_hd: "0 \<le> n \<Longrightarrow> is_digit (hd (digits n))"
  using digits_all[of n] digits_ne[of n] by (cases "digits n") auto

lemma digits_no_hex:
  assumes "0 \<le> n" shows "take 2 (digits n) \<noteq> ''0x'' \<and> take 2 (digits n) \<noteq> ''0X''"
proof -
  have "\<And>p. take 2 (digits n) = p \<Longrightarrow> list_all is_digit p"
    using digits_all[OF assms] by (auto simp: list_all_iff dest: in_set_takeD)
  then show ?thesis by (auto simp: is_digit_def)
qed

lemma takeWhile_all: "list_all P xs \<Longrightarrow> takeWhile P xs = xs"
  by (induction xs) auto

lemma parseInt_digits:
  assumes "0 \<le> n" shows "parseInt (digits n) = Some n"
proof -
  have 1: "trimStart (digits n) = digits n"
    using digits_hd[OF assms] digits_ne[of n] digit_not_special[of "hd (digits n)"]
    by (cases "digits n") (auto simp: trimStart_def)
  have 2: "hd (digits n) \<noteq> CHR ''-''" "hd (digits n) \<noteq> CHR ''+''"
    using digits_hd[OF assms] digit_not_special[of "hd (digits n)"] by auto
  show ?thesis
    unfolding parseInt_def 1 Let_def
    using 2 digits_no_hex[OF assms] digits_ne[of n]
    by (simp add: takeWhile_all[OF digits_all[OF assms]] digits_val[OF assms])
qed

lemma parseInt_neg_digits:
  assumes "0 \<le> n" shows "parseInt (CHR ''-'' # digits n) = Some (- n)"
proof -
  have 1: "trimStart (CHR ''-'' # digits n) = CHR ''-'' # digits n"
    by (simp add: trimStart_def js_space_def)
  show ?thesis
    unfolding parseInt_def 1 Let_def
    using digits_no_hex[OF assms] digits_ne[of n]
    by (simp add: takeWhile_all[OF digits_all[OF assms]] digits_val[OF assms])
qed

lemma parseInt_toString: "parseInt (toString i) = Some i"
  by (cases "i < 0") (simp_all add: toString_def parseInt_digits parseInt_neg_digits)

lemma toString_truthy: "toString i \<noteq> []"
  by (simp add: toString_def digits_ne)

lemma cooldown_stamp: "in_cooldown t (Some (toString T)) = (t < T + 5000)"
  by (auto simp: in_cooldown_def parseInt_toString toString_truthy)

lemma accept_loop_Cons:
  "accept_loop clock i (b # bs) n =
     (fst (accept_button (fst (clock i)) (snd (clock i)) b) #
        fst (accept_loop clock (Suc i) bs
               (if snd (accept_button (fst (clock i)) (snd (clock i)) b) then Suc n else n)),
      snd (accept_loop clock (Suc i) bs
               (if snd (accept_button (fst (clock i)) (snd (clock i)) b) then Suc n else n)))"
  by (simp add: Let_def case_prod_unfold)

lemma accept_loop_nth:
  "k < length bs \<Longrightarrow>
   fst (accept_loop clock i bs n) ! k =
     fst (accept_button (fst (clock (i + k))) (snd (clock (i + k))) (bs ! k))"
proof (induction bs arbitrary: i n k)
  case Nil
  then show ?case by simp
next
  case (Cons b bs)
  show ?case
  proof (cases k)
    case 0
    then show ?thesis by (simp add: accept_loop_Cons del: accept_loop.simps)
  next
    case (Suc j)
    with Cons.prems have "j < length bs" by simp
    from Cons.IH[OF this, of "Suc i"] Suc show ?thesis
      by (simp add: accept_loop_Cons del: accept_loop.simps)
  qed
qed

lemma accept_loop_length: "length (fst (accept_loop clock i bs n)) = length bs"
proof (induction bs arbitrary: i n)
  case Nil
  then show ?case by simp
next
  case (Cons b bs)
  then show ?case by (simp add: accept_loop_Cons del: accept_loop.simps)
qed

lemma accept_loop_v30_Cons:
  "accept_loop_v30 (b # bs) n =
     (fst (accept_button_v30 b) #
        fst (accept_loop_v30 bs (if snd (accept_button_v30 b) then Suc n else n)),
      snd (accept_loop_v30 bs (if snd (accept_button_v30 b) then Suc n else n)))"
  by (simp add: Let_def case_prod_unfold)

lemma accept_loop_v30_nth:
  "k < length bs \<Longrightarrow> fst (accept_loop_v30 bs n) ! k = fst (accept_button_v30 (bs ! k))"
proof (induction bs arbitrary: n k)
  case Nil
  then show ?case by simp
next
  case (Cons b bs)
  show ?case
  proof (cases k)
    case 0
    then show ?thesis by (simp add: accept_loop_v30_Cons del: accept_loop_v30.simps)
  next
    case (Suc j)
    with Cons.prems have "j < length bs" by simp
    from Cons.IH[OF this] Suc show ?thesis
      by (simp add: accept_loop_v30_Cons del: accept_loop_v30.simps)
  qed
qed

lemma script_nth:
  "k < length doc \<Longrightarrow>
   fst (CDP_ACCEPT_SCRIPT clock doc) ! k =
     fst (accept_button (fst (clock k)) (snd (clock k)) (doc ! k))"
  using accept_loop_nth[of k doc clock 0 0] by (simp add: CDP_ACCEPT_SCRIPT_def)

lemma accept_button_hit:
  "clicks (fst (accept_button now stamp b)) \<noteq> clicks b \<Longrightarrow>
   yoloClicked (fst (accept_button now stamp b)) = Some (toString stamp)"
  by (auto simp: accept_button_def Let_def split: if_splits)

text \<open>
  Claim C7, as amended.  Take a control that an evaluation of the v3.1 script activated,
  its turn reading the time \<open>T\<close> for the stamp, and a later evaluation over a document in
  which that control still carries the stamp.  When the turn of the later evaluation
  reads a time before \<open>T + 5000\<close> for its test, the evaluation leaves the control as it
  is; when it reads \<open>T + 5000\<close> or more and the control's label still matches and it is
  rendered and not disabled, the evaluation activates it again and stamps it anew.  A
  control that carries no stamp is activated whenever its label matches and it is
  rendered and not disabled.  An
  evaluation of the v3.0 script, which has no stamp, activates every control whose
  trimmed, lower-cased label is one of its eight words and which is rendered.
\<close>

theorem cooldown_by_version:
  assumes "k < length doc"
      and "clicks (fst (CDP_ACCEPT_SCRIPT clock doc) ! k) \<noteq> clicks (doc ! k)"
      and "j < length doc'"
      and "yoloClicked (doc' ! j) = yoloClicked (fst (CDP_ACCEPT_SCRIPT clock doc) ! k)"
  shows "(fst (clock' j) < snd (clock k) + 5000 \<longrightarrow>
            fst (CDP_ACCEPT_SCRIPT clock' doc') ! j = doc' ! j) \<and>
         (snd (clock k) + 5000 \<le> fst (clock' j) \<and> accept_label (trim (textContent (doc' ! j))) \<and>
          rendered (doc' ! j) \<and> \<not> disabled (doc' ! j) \<longrightarrow>
            fst (CDP_ACCEPT_SCRIPT clock' doc') ! j =
              (doc' ! j)\<lparr>yoloClicked := Some (toString (snd (clock' j))),
                          clicks := Suc (clicks (doc' ! j))\<rparr>) \<and>
         length (fst (CDP_ACCEPT_SCRIPT clock' doc')) = length doc' \<and>
         (\<forall>i<length doc'. yoloClicked (doc' ! i) = None \<and>
              accept_label (trim (textContent (doc' ! i))) \<and> rendered (doc' ! i) \<and>
              \<not> disabled (doc' ! i) \<longrightarrow>
            fst (CDP_ACCEPT_SCRIPT clock' doc') ! i =
              (doc' ! i)\<lparr>yoloClicked := Some (toString (snd (clock' i))),
                          clicks := Suc (clicks (doc' ! i))\<rparr>) \<and>
         (\<forall>d i. i < length d \<longrightarrow>
            fst (accept_script_v30 d) ! i =
              (if exact_label (toLowerCase (trim (textContent (d ! i)))) \<and> rendered (d ! i)
               then (d ! i)\<lparr>clicks := Suc (clicks (d ! i))\<rparr> else d ! i))"
proof (intro conjI impI allI)
  have "yoloClicked (fst (CDP_ACCEPT_SCRIPT clock doc) ! k) = Some (toString (snd (clock k)))"
    using assms(2) accept_button_hit[of "fst (clock k)" "snd (clock k)" "doc ! k"]
    by (simp add: script_nth[OF assms(1)])
  then have y: "yoloClicked (doc' ! j) = Some (toString (snd (clock k)))"
    using assms(4) by simp
  {
    assume "fst (clock' j) < snd (clock k) + 5000"
    then show "fst (CDP_ACCEPT_SCRIPT clock' doc') ! j = doc' ! j"
      by (simp add: script_nth[OF assms(3)] accept_button_def Let_def y cooldown_stamp)
  next
    assume "snd (clock k) + 5000 \<le> fst (clock' j) \<and> accept_label (trim (textContent (doc' ! j))) \<and>
          rendered (doc' ! j) \<and> \<not> disabled (doc' ! j)"
    then show "fst (CDP_ACCEPT_SCRIPT clock' doc') ! j =
              (doc' ! j)\<lparr>yoloClicked := Some (toString (snd (clock' j))),
                          clicks := Suc (clicks (doc' ! j))\<rparr>"
      by (simp add: script_nth[OF assms(3)] accept_button_def Let_def y cooldown_stamp)
  }
next
  show "length (fst (CDP_ACCEPT_SCRIPT clock' doc')) = length doc'"
    by (simp add: CDP_ACCEPT_SCRIPT_def accept_loop_length)
next
  fix i
  assume "i < length doc'"
     and "yoloClicked (doc' ! i) = None \<and> accept_label (trim (textContent (doc' ! i))) \<and>
          rendered (doc' ! i) \<and> \<not> disabled (doc' ! i)"
  then show "fst (CDP_ACCEPT_SCRIPT clock' doc') ! i =
              (doc' ! i)\<lparr>yoloClicked := Some (toString (snd (clock' i))),
                          clicks := Suc (clicks (doc' ! i))\<rparr>"
    by (simp add: script_nth accept_button_def Let_def in_cooldown_def)
next
  fix d :: "button list" and i
  assume "i < length d"
  then show "fst (accept_script_v30 d) ! i =
              (if exact_label (toLowerCase (trim (textContent (d ! i)))) \<and> rendered (d ! i)
               then (d ! i)\<lparr>clicks := Suc (clicks (d ! i))\<rparr> else d ! i)"
    by (simp add: accept_script_v30_def accept_loop_v30_nth accept_button_v30_def Let_def)
qed

lemma sample_doc_first:
  "CDP_ACCEPT_SCRIPT (clock_at 1000 1001) sample_doc = ([cancel_btn, clicked_btn], 1)"
  by code_simp

lemma sample_doc_facts:
  "(1::nat) < length sample_doc \<and>
   clicks ([cancel_btn, clicked_btn] ! 1) \<noteq> clicks (sample_doc ! 1) \<and>
   (1::nat) < length [cancel_btn, clicked_btn] \<and>
   accept_label (trim (textContent ([cancel_btn, clicked_btn] ! 1))) \<and>
   rendered ([cancel_btn, clicked_btn] ! 1) \<and> \<not> disabled ([cancel_btn, clicked_btn] ! 1) \<and>
   clicks clicked_btn = 1"
  by code_simp

theorem cooldown_by_version_witness:
  "CDP_ACCEPT_SCRIPT (clock_at 1000 1001) sample_doc = ([cancel_btn, clicked_btn], 1) \<and>
   fst (CDP_ACCEPT_SCRIPT (clock_at 6000 6000) [cancel_btn, clicked_btn]) ! 1 = clicked_btn \<and>
   fst (CDP_ACCEPT_SCRIPT (clock_at 6001 6002) [cancel_btn, clicked_btn]) ! 1 =
     clicked_btn\<lparr>yoloClicked := Some (toString 6002), clicks := 2\<rparr> \<and>
   fst (accept_script_v30 [accept_btn\<lparr>clicks := 1\<rparr>]) ! 0 = accept_btn\<lparr>clicks := 2\<rparr>"
proof -
  have f: "fst (CDP_ACCEPT_SCRIPT (clock_at 1000 1001) sample_doc) = [cancel_btn, clicked_btn]"
    using sample_doc_first by simp
  have a: "(1::nat) < length sample_doc"
    and b: "clicks (fst (CDP_ACCEPT_SCRIPT (clock_at 1000 1001) sample_doc) ! 1) \<noteq>
            clicks (sample_doc ! 1)"
    and c: "(1::nat) < length [cancel_btn, clicked_btn]"
    and d: "yoloClicked ([cancel_btn, clicked_btn] ! 1) =
            yoloClicked (fst (CDP_ACCEPT_SCRIPT (clock_at 1000 1001) sample_doc) ! 1)"
    and l: "accept_label (trim (textContent ([cancel_btn, clicked_btn] ! 1)))"
      "rendered ([cancel_btn, clicked_btn] ! 1)" "\<not> disabled ([cancel_btn, clicked_btn] ! 1)"
    and n: "clicks clicked_btn = 1"
    using sample_doc_facts unfolding f by simp_all
  have e: "exact_label (toLowerCase (trim (textContent (accept_btn\<lparr>clicks := 1\<rparr>))))"
    "rendered (accept_btn\<lparr>clicks := 1\<rparr>)"
    by code_simp+
  note t1 = cooldown_by_version [OF a b c d, of "clock_at 6000 6000"]
  note t2 = cooldown_by_version [OF a b c d, of "clock_at 6001 6002"]
  have 1: "fst (CDP_ACCEPT_SCRIPT (clock_at 6000 6000) [cancel_btn, clicked_btn]) ! 1 =
           [cancel_btn, clicked_btn] ! 1"
    using t1 by (simp add: clock_at_def)
  have 2: "fst (CDP_ACCEPT_SCRIPT (clock_at 6001 6002) [cancel_btn, clicked_btn]) ! 1 =
           ([cancel_btn, clicked_btn] ! 1)\<lparr>yoloClicked := Some (toString (snd (clock_at 6001 6002 1))),
              clicks := Suc (clicks ([cancel_btn, clicked_btn] ! 1))\<rparr>"
    using t2 l by (simp add: clock_at_def)
  have 3: "fst (accept_script_v30 [accept_btn\<lparr>clicks := 1\<rparr>]) ! 0 =
           (accept_btn\<lparr>clicks := 1\<rparr>)\<lparr>clicks := Suc (clicks (accept_btn\<lparr>clicks := 1\<rparr>))\<rparr>"
    using t1 e by simp
  show ?thesis
    using sample_doc_first 1 2 3 n by (simp add: clock_at_def)
qed

text \<open>
  The claim C7 as stated fails on the v3.0 script: two evaluations in a row both click
  the same button.
\<close>

theorem v30_script_clicks_again:
  "accept_script_v30 [accept_btn] = ([accept_btn\<lparr>clicks := 1\<rparr>], 1) \<and>
   accept_script_v30 [accept_btn\<lparr>clicks := 1\<rparr>] = ([accept_btn\<lparr>clicks := 2\<rparr>], 1)"
  by code_simp

subsection \<open>Comment stripping\<close>

lemma skip_line_drop:
  "i \<le> length s \<Longrightarrow> drop (skip_line s i) s = dropWhile (\<lambda>x. x \<noteq> NL) (drop i s)"
proof (induction s i rule: skip_line.induct)
  case (1 s i)
  show ?case
  proof (cases "i < length s \<and> s ! i \<noteq> NL")
    case True
    then have d: "drop i s = s ! i # drop (Suc i) s" by (simp add: Cons_nth_drop_Suc)
    from True 1 have "drop (skip_line s (Suc i)) s = dropWhile (\<lambda>x. x \<noteq> NL) (drop (Suc i) s)"
      by simp
    then show ?thesis using True by (subst skip_line.simps) (simp add: d)
  next
    case False
    show ?thesis
    proof (cases "i < length s")
      case True
      with False have "s ! i = NL" by simp
      then show ?thesis using True
        by (subst skip_line.simps) (simp add: Cons_nth_drop_Suc[symmetric])
    next
      case False
      with 1(2) show ?thesis by (subst skip_line.simps) simp
    qed
  qed
qed

lemma strip_loop_rest:
  "strip_loop s i inString escape result = result @ strip_rest inString escape (drop i s)"
proof (induction s i inString escape result rule: strip_loop.induct)
  case (1 s i inString escape result)
  show ?case
  proof (cases "i < length s")
    case False
    then show ?thesis by (subst strip_loop.simps) simp
  next
    case True
    then have d: "drop i s = s ! i # drop (Suc i) s" by (simp add: Cons_nth_drop_Suc)
    have t: "(take 1 (drop (Suc i) s) = [SL]) = (Suc i < length s \<and> s ! Suc i = SL)"
      by (cases "Suc i < length s") (simp_all add: Cons_nth_drop_Suc[symmetric] take_Suc_conv_app_nth)
    have k: "drop (Suc (skip_line s i)) s = drop 1 (dropWhile (\<lambda>x. x \<noteq> NL) (drop i s))"
      using skip_line_drop[of i s] True by (simp add: drop_Suc drop_tl)
    let ?ch = "s ! i"
    show ?thesis
    proof (cases escape)
      case True
      then have "strip_loop s i inString escape result =
                 strip_loop s (Suc i) inString False (result @ [?ch])"
        using \<open>i < length s\<close> by (subst strip_loop.simps) (simp add: Let_def)
      also have "\<dots> = (result @ [?ch]) @ strip_rest inString False (drop (Suc i) s)"
        using 1(1)[OF \<open>i < length s\<close> refl True] .
      finally show ?thesis using True by (simp add: d)
    next
      case noesc: False
      show ?thesis
      proof (cases "?ch = BS \<and> inString")
        case True
        then have "strip_loop s i inString escape result =
                   strip_loop s (Suc i) inString True (result @ [?ch])"
          using \<open>i < length s\<close> noesc by (subst strip_loop.simps) (simp add: Let_def)
        also have "\<dots> = (result @ [?ch]) @ strip_rest inString True (drop (Suc i) s)"
          using 1(2)[OF \<open>i < length s\<close> refl noesc True] .
        finally show ?thesis using True noesc by (simp add: d)
      next
        case nobs: False
        show ?thesis
        proof (cases "?ch = DQ")
          case True
          then have "strip_loop s i inString escape result =
                     strip_loop s (Suc i) (\<not> inString) escape (result @ [?ch])"
            using \<open>i < length s\<close> noesc nobs by (subst strip_loop.simps) (simp add: Let_def)
          also have "\<dots> = (result @ [?ch]) @ strip_rest (\<not> inString) escape (drop (Suc i) s)"
            using 1(3)[OF \<open>i < length s\<close> refl noesc nobs True] .
          finally show ?thesis using True noesc nobs by (simp add: d)
        next
          case nodq: False
          show ?thesis
          proof (cases "\<not> inString \<and> ?ch = SL \<and> Suc i < length s \<and> s ! Suc i = SL")
            case True
            then have "strip_loop s i inString escape result =
                       strip_loop s (Suc (skip_line s i)) inString escape (result @ [NL])"
              using \<open>i < length s\<close> noesc nobs nodq
              by (subst strip_loop.simps) (simp add: Let_def)
            also have "\<dots> = (result @ [NL]) @
                         strip_rest inString escape (drop (Suc (skip_line s i)) s)"
              using 1(4)[OF \<open>i < length s\<close> refl noesc nobs nodq True] .
            finally show ?thesis
              using True noesc nobs nodq t k by (simp add: d)
          next
            case False
            then have "strip_loop s i inString escape result =
                       strip_loop s (Suc i) inString escape (result @ [?ch])"
              using \<open>i < length s\<close> noesc nobs nodq
              by (subst strip_loop.simps) (auto simp add: Let_def)
            also have "\<dots> = (result @ [?ch]) @ strip_rest inString escape (drop (Suc i) s)"
              using 1(5)[OF \<open>i < length s\<close> refl noesc nobs nodq False] .
            finally show ?thesis
              using False noesc nobs nodq t by (auto simp add: d)
          qed
        qed
      qed
    qed
  qed
qed

lemma strip_eq_rest: "stripJsonComments s = strip_rest False False s"
  by (simp add: stripJsonComments_def strip_loop_rest)

lemma strip_body:
  "body_ok shut b \<Longrightarrow>
   strip_rest True False (b @ (if shut then DQ # rest else [])) =
     b @ (if shut then DQ # strip_rest False False rest else [])"
proof (induction shut b rule: body_ok.induct)
  case (1 shut)
  then show ?case by simp
next
  case (2 shut c)
  then show ?case by auto
next
  case (3 shut c d ds)
  then show ?case by (auto split: if_splits)
qed

lemma strip_literal:
  "body_ok shut b \<Longrightarrow>
   strip_rest False False (render (Literal b shut) @ (if shut then rest else [])) =
     stripped (Literal b shut) @ (if shut then strip_rest False False rest else [])"
  using strip_body[of shut b rest] by (cases shut) simp_all

lemma dropWhile_line: "NL \<notin> set t \<Longrightarrow> dropWhile (\<lambda>x. x \<noteq> NL) (t @ NL # rest) = NL # rest"
  by (induction t) auto

lemma dropWhile_line_end: "NL \<notin> set t \<Longrightarrow> dropWhile (\<lambda>x. x \<noteq> NL) t = []"
  by (induction t) auto

lemma strip_comment:
  "NL \<notin> set t \<Longrightarrow>
   strip_rest False False (render (Comment t ended) @ (if ended then rest else [])) =
     NL # (if ended then strip_rest False False rest else [])"
  by (cases ended) (simp_all add: dropWhile_line dropWhile_line_end)

lemma strip_plain:
  "c \<noteq> DQ \<Longrightarrow> (c = SL \<longrightarrow> take 1 rest \<noteq> [SL]) \<Longrightarrow>
   strip_rest False False (c # rest) = c # strip_rest False False rest"
  by auto

lemma strip_pieces:
  "pieces_ok ps \<Longrightarrow> strip_rest False False (render_all ps) = stripped_all ps"
proof (induction ps)
  case Nil
  then show ?case by (simp add: render_all_def stripped_all_def)
next
  case (Cons p ps)
  show ?case
  proof (cases p)
    case (Plain c)
    with Cons show ?thesis
      using strip_plain[of c "render_all ps"]
      by (simp add: render_all_def stripped_all_def del: strip_rest.simps)
  next
    case (Literal b shut)
    with Cons show ?thesis
      using strip_literal[of shut b "render_all ps"]
      by (cases shut) (auto simp add: render_all_def stripped_all_def simp del: strip_rest.simps)
  next
    case (Comment t ended)
    with Cons show ?thesis
      using strip_comment[of t ended "render_all ps"]
      by (cases ended) (auto simp add: render_all_def stripped_all_def simp del: strip_rest.simps)
  qed
qed

lemma body_split:
  "\<exists>b shut rest. body_ok shut b \<and> cs = b @ (if shut then DQ # rest else []) \<and> (shut \<or> rest = [])"
proof (induction cs rule: length_induct)
  case (1 cs)
  show ?case
  proof (cases cs)
    case Nil
    then show ?thesis by (intro exI[of _ "[]"] exI[of _ False] exI[of _ "[]"]) simp
  next
    case (Cons c cs')
    show ?thesis
    proof (cases "c = DQ")
      case True
      with Cons show ?thesis by (intro exI[of _ "[]"] exI[of _ True] exI[of _ cs']) simp
    next
      case nodq: False
      show ?thesis
      proof (cases "c = BS")
        case True
        show ?thesis
        proof (cases cs')
          case Nil
          with Cons True show ?thesis
            by (intro exI[of _ "[BS]"] exI[of _ False] exI[of _ "[]"]) simp
        next
          case (Cons d ds)
          with 1 \<open>cs = c # cs'\<close> obtain b shut rest where
            h: "body_ok shut b" "ds = b @ (if shut then DQ # rest else [])" "shut \<or> rest = []"
            by (metis (no_types, lifting) length_Cons lessI less_SucI)
          show ?thesis
            using h Cons True \<open>cs = c # cs'\<close>
            by (intro exI[of _ "BS # d # b"] exI[of _ shut] exI[of _ rest]) simp
        qed
      next
        case nobs: False
        from 1 Cons obtain b shut rest where
          h: "body_ok shut b" "cs' = b @ (if shut then DQ # rest else [])" "shut \<or> rest = []"
          by (metis (no_types, lifting) length_Cons lessI)
        have "body_ok shut (c # b)" using h(1) nodq nobs by (cases b) simp_all
        then show ?thesis
          using h Cons by (intro exI[of _ "c # b"] exI[of _ shut] exI[of _ rest]) simp
      qed
    qed
  qed
qed

lemma comment_split:
  "\<exists>t ended rest. NL \<notin> set t \<and> cs = t @ (if ended then NL # rest else []) \<and> (ended \<or> rest = [])"
proof (cases "NL \<in> set cs")
  case True
  then obtain t rest where "cs = t @ NL # rest" "NL \<notin> set t"
    by (meson split_list_first)
  then show ?thesis by (intro exI[of _ t] exI[of _ True] exI[of _ rest]) simp
next
  case False
  then show ?thesis by (intro exI[of _ cs] exI[of _ False] exI[of _ "[]"]) simp
qed

lemma pieces_exist: "\<exists>ps. pieces_ok ps \<and> render_all ps = s"
proof (induction s rule: length_induct)
  case (1 s)
  show ?case
  proof (cases s)
    case Nil
    then show ?thesis by (intro exI[of _ "[]"]) (simp add: render_all_def)
  next
    case (Cons c cs)
    show ?thesis
    proof (cases "c = DQ")
      case True
      obtain b shut rest where
        h: "body_ok shut b" "cs = b @ (if shut then DQ # rest else [])" "shut \<or> rest = []"
        using body_split[of cs] by blast
      have "length rest < length s" using h(2,3) Cons by (cases shut) auto
      with 1 obtain ps where ps: "pieces_ok ps" "render_all ps = rest" by blast
      show ?thesis
      proof (cases shut)
        case True
        with h ps Cons \<open>c = DQ\<close> show ?thesis
          by (intro exI[of _ "Literal b True # ps"]) (simp add: render_all_def)
      next
        case False
        with h ps Cons \<open>c = DQ\<close> show ?thesis
          by (intro exI[of _ "[Literal b False]"]) (simp add: render_all_def)
      qed
    next
      case nodq: False
      show ?thesis
      proof (cases "c = SL \<and> take 1 cs = [SL]")
        case True
        then obtain cs' where cs: "cs = SL # cs'" by (cases cs) auto
        obtain t ended rest where
          h: "NL \<notin> set t" "cs' = t @ (if ended then NL # rest else [])" "ended \<or> rest = []"
          using comment_split[of cs'] by blast
        have "length rest < length s" using h(2,3) Cons cs by (cases ended) auto
        with 1 obtain ps where ps: "pieces_ok ps" "render_all ps = rest" by blast
        show ?thesis
        proof (cases ended)
          case True
          with h ps Cons cs \<open>c = SL \<and> take 1 cs = [SL]\<close> show ?thesis
            by (intro exI[of _ "Comment t True # ps"]) (simp add: render_all_def)
        next
          case False
          with h ps Cons cs \<open>c = SL \<and> take 1 cs = [SL]\<close> show ?thesis
            by (intro exI[of _ "[Comment t False]"]) (simp add: render_all_def)
        qed
      next
        case False
        from 1 Cons obtain ps where ps: "pieces_ok ps" "render_all ps = cs" by auto
        with False nodq Cons show ?thesis
          by (intro exI[of _ "Plain c # ps"]) (auto simp add: render_all_def)
      qed
    qed
  qed
qed

lemma strip_commas_other: "c \<noteq> CHR '','' \<Longrightarrow> strip_commas (c # cs) = c # strip_commas cs"
  by simp

lemma strip_commas_kept: "no_closer cs \<Longrightarrow> strip_commas (CHR '','' # cs) = CHR '','' # strip_commas cs"
  by (simp add: no_closer_def split: list.splits del: dropWhile_eq_Nil_conv)

lemma no_closer_append: "no_closer cs \<Longrightarrow> no_closer (cs @ DQ # rest)"
  by (induction cs) (auto simp: no_closer_def js_space_def)

lemma commas_literal:
  "comma_free b \<Longrightarrow> strip_commas (b @ DQ # rest) = b @ DQ # strip_commas rest"
proof (induction b)
  case Nil
  then show ?case by simp
next
  case (Cons c cs)
  then have ih: "strip_commas (cs @ DQ # rest) = cs @ DQ # strip_commas rest" by simp
  show ?case
  proof (cases "c = CHR '',''")
    case False
    then show ?thesis using ih by (simp del: strip_commas.simps add: strip_commas_other)
  next
    case True
    with Cons.prems have "no_closer (cs @ DQ # rest)" by (simp add: no_closer_append)
    then show ?thesis using True ih
      by (simp del: strip_commas.simps add: strip_commas_kept)
  qed
qed

lemma commas_literal_end: "comma_free b \<Longrightarrow> strip_commas b = b"
proof (induction b)
  case Nil
  then show ?case by simp
next
  case (Cons c cs)
  then have ih: "strip_commas cs = cs" by simp
  show ?case
  proof (cases "c = CHR '',''")
    case False
    then show ?thesis using ih by (simp del: strip_commas.simps add: strip_commas_other)
  next
    case True
    with Cons.prems have "no_closer cs" by simp
    then show ?thesis using True ih
      by (simp del: strip_commas.simps add: strip_commas_kept)
  qed
qed

lemma closer_follows_text:
  "\<not> closer_follows ps \<Longrightarrow> no_closer (stripped_all ps)"
proof (induction ps)
  case Nil
  then show ?case by (simp add: stripped_all_def no_closer_def)
next
  case (Cons p ps)
  then show ?case
    by (cases p) (auto simp: stripped_all_def no_closer_def js_space_def split: if_splits)
qed

lemma closer_found:
  "closer_follows ps \<Longrightarrow>
   \<exists>sp d pre ps'. ps = pre @ ps' \<and> length ps' < length ps \<and> list_all js_space sp \<and>
      (d = CHR ''}'' \<or> d = CHR '']'') \<and>
      stripped_all ps = sp @ d # stripped_all ps' \<and>
      stripped_v31 ps = sp @ d # stripped_v31 ps'"
proof (induction ps)
  case Nil
  then show ?case by simp
next
  case (Cons p ps)
  show ?case
  proof (cases p)
    case (Plain c)
    show ?thesis
    proof (cases "js_space c")
      case True
      with Cons.prems Plain have "closer_follows ps" by simp
      from Cons.IH[OF this] obtain sp d pre ps' where
        h: "ps = pre @ ps'" "length ps' < length ps" "list_all js_space sp"
           "d = CHR ''}'' \<or> d = CHR '']''" "stripped_all ps = sp @ d # stripped_all ps'"
           "stripped_v31 ps = sp @ d # stripped_v31 ps'"
        by blast
      have nc: "c \<noteq> CHR '',''" using True by (auto simp: js_space_def)
      have "p # ps = (p # pre) @ ps' \<and> length ps' < length (p # ps) \<and>
            list_all js_space (c # sp) \<and> (d = CHR ''}'' \<or> d = CHR '']'') \<and>
            stripped_all (p # ps) = (c # sp) @ d # stripped_all ps' \<and>
            stripped_v31 (p # ps) = (c # sp) @ d # stripped_v31 ps'"
        using h True nc Plain by (simp add: stripped_all_def)
      then show ?thesis by blast
    next
      case False
      with Cons.prems Plain have d: "c = CHR ''}'' \<or> c = CHR '']''" by simp
      then have nc: "c \<noteq> CHR '',''" by auto
      have "p # ps = [p] @ ps \<and> length ps < length (p # ps) \<and>
            list_all js_space [] \<and> (c = CHR ''}'' \<or> c = CHR '']'') \<and>
            stripped_all (p # ps) = [] @ c # stripped_all ps \<and>
            stripped_v31 (p # ps) = [] @ c # stripped_v31 ps"
        using d nc Plain by (simp add: stripped_all_def)
      then show ?thesis by blast
    qed
  next
    case (Literal b shut)
    with Cons.prems show ?thesis by simp
  next
    case (Comment t ended)
    with Cons.prems have "closer_follows ps" by simp
    from Cons.IH[OF this] obtain sp d pre ps' where
      h: "ps = pre @ ps'" "length ps' < length ps" "list_all js_space sp"
         "d = CHR ''}'' \<or> d = CHR '']''" "stripped_all ps = sp @ d # stripped_all ps'"
         "stripped_v31 ps = sp @ d # stripped_v31 ps'"
      by blast
    have "p # ps = (p # pre) @ ps' \<and> length ps' < length (p # ps) \<and>
          list_all js_space (NL # sp) \<and> (d = CHR ''}'' \<or> d = CHR '']'') \<and>
          stripped_all (p # ps) = (NL # sp) @ d # stripped_all ps' \<and>
          stripped_v31 (p # ps) = (NL # sp) @ d # stripped_v31 ps'"
      using h Comment by (simp add: stripped_all_def js_space_def)
    then show ?thesis by blast
  qed
qed

lemma pieces_ok_suffix: "pieces_ok (pre @ ps) \<Longrightarrow> pieces_ok ps"
proof (induction pre)
  case Nil
  then show ?case by simp
next
  case (Cons p pre)
  then show ?case by (cases p) auto
qed

lemma strip_commas_match:
  "list_all js_space sp \<Longrightarrow> d = CHR ''}'' \<or> d = CHR '']'' \<Longrightarrow>
   strip_commas (CHR '','' # sp @ d # rest) = sp @ d # strip_commas rest"
proof -
  assume a: "list_all js_space sp" "d = CHR ''}'' \<or> d = CHR '']''"
  then have nd: "\<not> js_space d" by (auto simp: js_space_def)
  have "dropWhile js_space (sp @ d # rest) = d # rest" "takeWhile js_space (sp @ d # rest) = sp"
    using a(1) nd by (induction sp) auto
  then show ?thesis using a(2) by simp
qed

lemma commas_pieces:
  "pieces_ok ps \<Longrightarrow> list_all literal_comma_free ps \<Longrightarrow>
   strip_commas (stripped_all ps) = stripped_v31 ps"
proof (induction ps rule: length_induct)
  case (1 ps)
  show ?case
  proof (cases ps)
    case Nil
    then show ?thesis by (simp add: stripped_all_def)
  next
    case (Cons p qs)
    have okq: "pieces_ok qs" "list_all literal_comma_free qs"
      using 1(2,3) Cons pieces_ok_suffix[of "[p]" qs] by simp_all
    have ihq: "strip_commas (stripped_all qs) = stripped_v31 qs"
      using 1(1) okq Cons by simp
    show ?thesis
    proof (cases p)
      case (Plain c)
      show ?thesis
      proof (cases "c = CHR '','' \<and> closer_follows qs")
        case True
        then obtain sp d pre ps' where
          h: "qs = pre @ ps'" "length ps' < length qs" "list_all js_space sp"
             "d = CHR ''}'' \<or> d = CHR '']''" "stripped_all qs = sp @ d # stripped_all ps'"
             "stripped_v31 qs = sp @ d # stripped_v31 ps'"
          using closer_found[of qs] by blast
        have ok': "pieces_ok ps'" "list_all literal_comma_free ps'"
          using okq h(1) pieces_ok_suffix[of pre ps'] by simp_all
        have ih': "strip_commas (stripped_all ps') = stripped_v31 ps'"
          using 1(1) ok' h(2) Cons by simp
        have "stripped_all ps = CHR '','' # sp @ d # stripped_all ps'"
          using Cons Plain True h(5) by (simp add: stripped_all_def)
        then have "strip_commas (stripped_all ps) = sp @ d # strip_commas (stripped_all ps')"
          using strip_commas_match[OF h(3,4)] by simp
        then show ?thesis using ih' h(6) Cons Plain True by simp
      next
        case False
        have "strip_commas (c # stripped_all qs) = c # strip_commas (stripped_all qs)"
        proof (cases "c = CHR '',''")
          case True
          with False have "\<not> closer_follows qs" by simp
          then have "no_closer (stripped_all qs)" by (rule closer_follows_text)
          then show ?thesis using True by (simp only: strip_commas_kept)
        next
          case False
          then show ?thesis by simp
        qed
        then show ?thesis using False ihq Cons Plain by (simp add: stripped_all_def)
      qed
    next
      case (Literal b shut)
      have cf: "comma_free b" using 1(3) Cons Literal by simp
      show ?thesis
      proof (cases shut)
        case True
        then show ?thesis
          using commas_literal[OF cf, of "stripped_all qs"] ihq Cons Literal
          by (simp add: stripped_all_def)
      next
        case False
        with 1(2) Cons Literal have "qs = []" by simp
        then show ?thesis
          using commas_literal_end[OF cf] False Cons Literal
          by (simp add: stripped_all_def)
      qed
    next
      case (Comment t ended)
      then show ?thesis using ihq Cons by (simp add: stripped_all_def)
    qed
  qed
qed

text \<open>
  Claim C10, as amended.  Every text is the rendering of a well-formed sequence of
  pieces, and for each such reading the \<^verbatim>\<open>stripJsonComments\<close> of \<^verbatim>\<open>src/extension.js\<close>
  returns the text with every string literal kept as it is (a \<^verbatim>\<open>//\<close> inside it stays, an
  escaped quote does not end it), every comment with its line end replaced by one
  newline, and every other character kept.  For the texts in which no string literal
  holds a comma that white space and a closing brace or bracket follow inside the
  literal, the v3.1 function returns the same except that it removes each comma outside
  the literals that only white space and comments separate from a closing brace or
  bracket.
\<close>

theorem strip_comments_by_version:
  "(\<exists>ps. pieces_ok ps \<and> render_all ps = s) \<and>
   (\<forall>ps. pieces_ok ps \<and> render_all ps = s \<longrightarrow>
      stripJsonComments s = stripped_all ps \<and>
      (list_all literal_comma_free ps \<longrightarrow> stripJsonComments_v31 s = stripped_v31 ps))"
proof (intro conjI allI impI)
  show "\<exists>ps. pieces_ok ps \<and> render_all ps = s" by (rule pieces_exist)
next
  fix ps assume a: "pieces_ok ps \<and> render_all ps = s"
  then show "stripJsonComments s = stripped_all ps"
    using strip_pieces[of ps] by (simp add: strip_eq_rest)
next
  fix ps assume a: "pieces_ok ps \<and> render_all ps = s" and b: "list_all literal_comma_free ps"
  have "stripJsonComments s = stripped_all ps"
    using a strip_pieces[of ps] by (simp add: strip_eq_rest)
  then show "stripJsonComments_v31 s = stripped_v31 ps"
    using a b commas_pieces[of ps] by (simp add: stripJsonComments_v31_def)
qed

lemma sample_pieces_ok:
  "pieces_ok sample_pieces \<and> render_all sample_pieces = sample_text \<and>
   list_all literal_comma_free sample_pieces"
  by code_simp

theorem strip_comments_by_version_witness:
  "stripJsonComments sample_text =
     ''{'' @ [DQ] @ ''a//b'' @ [BS, DQ] @ ''c'' @ [DQ] @ '':1, '' @ [NL] @ ''}'' \<and>
   stripJsonComments_v31 sample_text =
     ''{'' @ [DQ] @ ''a//b'' @ [BS, DQ] @ ''c'' @ [DQ] @ '':1 '' @ [NL] @ ''}''"
proof -
  have "stripJsonComments sample_text = stripped_all sample_pieces \<and>
        stripJsonComments_v31 sample_text = stripped_v31 sample_pieces"
    using sample_pieces_ok strip_comments_by_version [of sample_text] by blast
  moreover have "stripped_all sample_pieces =
       ''{'' @ [DQ] @ ''a//b'' @ [BS, DQ] @ ''c'' @ [DQ] @ '':1, '' @ [NL] @ ''}''"
    by code_simp
  moreover have "stripped_v31 sample_pieces =
       ''{'' @ [DQ] @ ''a//b'' @ [BS, DQ] @ ''c'' @ [DQ] @ '':1 '' @ [NL] @ ''}''"
    by code_simp
  ultimately show ?thesis by simp
qed

text \<open>
  The claim C10 as stated fails on the v3.1 function: in a text with no comment and no
  string literal it removes a character, the trailing comma.
\<close>

theorem v31_removes_trailing_comma:
  "stripJsonComments_v31 ''[1,]'' = ''[1]'' \<and> stripJsonComments ''[1,]'' = ''[1,]''"
  by code_simp

text \<open>
  On the other texts the v3.1 function does not keep the literals: its replacement runs
  over the whole result, so it also takes a comma out of a string literal when white
  space and a brace or bracket follow it there.  The amended claim says nothing about
  these texts.
\<close>

lemma v31_changes_literal:
  "stripJsonComments_v31 ([DQ] @ ''a,}'' @ [DQ]) = [DQ] @ ''a}'' @ [DQ]"
  by code_simp

subsection \<open>The launch-configuration file\<close>

text \<open>
  The fuel that \<^verbatim>\<open>JSON_parse\<close> gives its parser is enough for every text: each value read
  takes at least one character and each nesting level two units of fuel, so the parser
  always ends with a value or a syntax error.
\<close>

lemma skip_ws_le: "length (skip_ws s) \<le> length s"
  by (simp add: skip_ws_def length_dropWhile_le)

lemma take1_drop: "take 1 t = [c] \<Longrightarrow> Suc (length (drop 1 t)) = length t"
  by (cases t) auto

lemma unit_cons_Some: "unit_cons u x = Some (k, r) \<Longrightarrow> \<exists>k'. x = Some (k', r)"
  by (auto simp: unit_cons_def split: option.splits)

lemma string_body_less: "string_body s = Some (k, r) \<Longrightarrow> length r < length s"
proof (induction s arbitrary: k r rule: string_body.induct)
  case 1
  then show ?case by simp
next
  case (2 c cs)
  show ?case
  proof (cases "c = DQ")
    case True
    then show ?thesis using 2(4) by simp
  next
    case nq: False
    show ?thesis
    proof (cases "c = BS")
      case False
      have lo: "\<not> (of_char c :: int) < 32" using 2(4) nq False by (auto split: if_splits)
      then obtain k' where "string_body cs = Some (k', r)"
        using 2(4) nq False by (auto dest: unit_cons_Some)
      then have "length r < length cs" using 2(3)[OF nq False lo] by simp
      then show ?thesis by simp
    next
      case True
      then obtain e rr where cs: "cs = e # rr" using 2(4) nq by (cases cs) auto
      show ?thesis
      proof (cases "e = CHR ''u''")
        case u: True
        then obtain w where w: "hex4 (take 4 rr) = Some w"
          using 2(4) nq True cs by (auto split: option.splits)
        then obtain k' where "string_body (drop 4 rr) = Some (k', r)"
          using 2(4) nq True cs u by (auto dest: unit_cons_Some)
        then have "length r < length (drop 4 rr)" using 2(1)[OF nq True cs u w] by simp
        then show ?thesis using cs by simp
      next
        case nu: False
        then obtain w where w: "escape_code e = Some w"
          using 2(4) nq True cs by (auto split: option.splits)
        then obtain k' where "string_body rr = Some (k', r)"
          using 2(4) nq True cs nu by (auto dest: unit_cons_Some)
        then have "length r < length rr" using 2(2)[OF nq True cs nu w] by simp
        then show ?thesis using cs by simp
      qed
    qed
  qed
qed

lemma dropWhile_less: "takeWhile P s \<noteq> [] \<Longrightarrow> length (dropWhile P s) < length s"
  by (cases s) (auto simp: le_imp_less_Suc length_dropWhile_le split: if_splits)

lemma drop1_le: "length (drop 1 s) \<le> length s"
  by simp

lemma if_None_Some: "((if C then None else Some X) = Some y) = (\<not> C \<and> X = y)"
  by simp

lemma parse_number_less:
  assumes "parse_number s = Some (x, r)" shows "length r < length s"
proof -
  define s1 where "s1 = (if take 1 s = ''-'' then drop 1 s else s)"
  define s2 where "s2 = dropWhile is_digit s1"
  define s3 where "s3 = (if take 1 s2 = ''.'' then dropWhile is_digit (drop 1 s2) else s2)"
  define hase where "hase = (take 1 s3 = ''e'' \<or> take 1 s3 = ''E'')"
  define s4 where "s4 = (if hase then drop 1 s3 else s3)"
  define s5 where "s5 = (if hase \<and> (take 1 s4 = ''-'' \<or> take 1 s4 = ''+'') then drop 1 s4 else s4)"
  define s6 where "s6 = (if hase then dropWhile is_digit s5 else s5)"
  note h = assms[unfolded parse_number_def Let_def if_None_Some prod.inject]
  have r: "r = s6"
    unfolding s6_def s5_def s4_def hase_def s3_def s2_def s1_def
    using h by (elim conjE) (erule sym)
  have ip: "takeWhile is_digit s1 \<noteq> []"
    unfolding s1_def using h by blast
  have "length s1 \<le> length s" by (simp add: s1_def)
  moreover have "length s2 < length s1" unfolding s2_def by (rule dropWhile_less[OF ip])
  moreover have "length s3 \<le> length s2"
    unfolding s3_def using le_trans[OF length_dropWhile_le drop1_le] by auto
  moreover have "length s4 \<le> length s3" by (simp add: s4_def)
  moreover have "length s5 \<le> length s4" by (simp add: s5_def)
  moreover have "length s6 \<le> length s5" by (simp add: s6_def length_dropWhile_le)
  ultimately show ?thesis unfolding r by linarith
qed


lemma parse_fuel:
  "(\<forall>s. consumes (parse_value n s) s \<and>
        (2 * length s + 1 \<le> n \<longrightarrow> parse_value n s \<noteq> OutOfFuel)) \<and>
   (\<forall>acc s. consumes (parse_elements n acc s) s \<and>
        (2 * length s + 2 \<le> n \<longrightarrow> parse_elements n acc s \<noteq> OutOfFuel)) \<and>
   (\<forall>acc s. consumes (parse_members n acc s) s \<and>
        (2 * length s + 1 \<le> n \<longrightarrow> parse_members n acc s \<noteq> OutOfFuel))"
proof (induction n)
  case 0
  show ?case by (simp add: consumes_def)
next
  case (Suc n)
  then have v: "\<And>s. consumes (parse_value n s) s"
      "\<And>s. 2 * length s + 1 \<le> n \<Longrightarrow> parse_value n s \<noteq> OutOfFuel"
    and e: "\<And>acc s. consumes (parse_elements n acc s) s"
      "\<And>acc s. 2 * length s + 2 \<le> n \<Longrightarrow> parse_elements n acc s \<noteq> OutOfFuel"
    and m: "\<And>acc s. consumes (parse_members n acc s) s"
      "\<And>acc s. 2 * length s + 1 \<le> n \<Longrightarrow> parse_members n acc s \<noteq> OutOfFuel"
    by blast+
  have pv: "consumes (parse_value (Suc n) s) s \<and>
        (2 * length s + 1 \<le> Suc n \<longrightarrow> parse_value (Suc n) s \<noteq> OutOfFuel)" for s
  proof -
    define t where "t = skip_ws s"
    have t: "length t \<le> length s" unfolding t_def by (rule skip_ws_le)
    consider (obj0) "take 1 t = ''{''" "take 1 (skip_ws (drop 1 t)) = ''}''"
      | (obj) "take 1 t = ''{''" "take 1 (skip_ws (drop 1 t)) \<noteq> ''}''"
      | (arr0) "take 1 t \<noteq> ''{''" "take 1 t = ''[''" "take 1 (skip_ws (drop 1 t)) = '']''"
      | (arr) "take 1 t \<noteq> ''{''" "take 1 t = ''[''" "take 1 (skip_ws (drop 1 t)) \<noteq> '']''"
      | (other) "take 1 t \<noteq> ''{''" "take 1 t \<noteq> ''[''"
      by blast
    then show ?thesis
    proof cases
      case obj0
      have "length (drop 1 (skip_ws (drop 1 t))) < length t"
        using take1_drop[OF obj0(1)] skip_ws_le[of "drop 1 t"] by simp
      then show ?thesis using obj0 t by (simp add: consumes_def t_def[symmetric] Let_def)
    next
      case obj
      have l: "Suc (length (drop 1 t)) = length t" using take1_drop[OF obj(1)] .
      have "consumes (parse_members n [] (drop 1 t)) s"
        using m(1)[of "[]" "drop 1 t"] l t by (auto simp: consumes_def split: parsed.splits)
      moreover have "2 * length s + 1 \<le> Suc n \<Longrightarrow> parse_members n [] (drop 1 t) \<noteq> OutOfFuel"
        using m(2)[of "drop 1 t" "[]"] l t by simp
      ultimately show ?thesis using obj by (auto simp: t_def[symmetric] Let_def)
    next
      case arr0
      have "length (drop 1 (skip_ws (drop 1 t))) < length t"
        using take1_drop[OF arr0(2)] skip_ws_le[of "drop 1 t"] by simp
      then show ?thesis using arr0 t by (simp add: consumes_def t_def[symmetric] Let_def)
    next
      case arr
      have l: "Suc (length (drop 1 t)) = length t" using take1_drop[OF arr(2)] .
      have "consumes (parse_elements n [] (drop 1 t)) s"
        using e(1)[of "[]" "drop 1 t"] l t by (auto simp: consumes_def split: parsed.splits)
      moreover have "2 * length s + 1 \<le> Suc n \<Longrightarrow> parse_elements n [] (drop 1 t) \<noteq> OutOfFuel"
        using e(2)[of "drop 1 t" "[]"] l t by simp
      ultimately show ?thesis using arr by (auto simp: t_def[symmetric] Let_def)
    next
      case other
      have "parse_value (Suc n) s \<noteq> OutOfFuel"
        using other by (auto simp: t_def[symmetric] Let_def split: option.splits)
      moreover have "consumes (parse_value (Suc n) s) s"
      proof (cases "parse_value (Suc n) s")
        case (Parsed x r)
        have "length r < length t"
        proof (cases "take 1 t = [DQ]")
          case True
          then obtain k where "string_body (drop 1 t) = Some (k, r)"
            using Parsed other by (auto simp: t_def[symmetric] Let_def split: option.splits)
          then show ?thesis using string_body_less[of "drop 1 t" k r] by simp
        next
          case nq: False
          show ?thesis
          proof (cases "take 4 t = ''true'' \<or> take 5 t = ''false'' \<or> take 4 t = ''null''")
            case True
            then have "t \<noteq> []" by auto
            moreover have "r = drop 4 t \<or> r = drop 5 t"
              using Parsed other nq True
              by (auto simp: t_def[symmetric] Let_def split: option.splits if_splits)
            ultimately show ?thesis by auto
          next
            case False
            then obtain y where "parse_number t = Some (y, r)"
              using Parsed other nq by (auto simp: t_def[symmetric] Let_def split: option.splits)
            then show ?thesis by (rule parse_number_less)
          qed
        qed
        then show ?thesis using Parsed t by (simp add: consumes_def)
      qed (simp_all add: consumes_def)
      ultimately show ?thesis by blast
    qed
  qed
  have pe: "consumes (parse_elements (Suc n) acc s) s \<and>
        (2 * length s + 2 \<le> Suc n \<longrightarrow> parse_elements (Suc n) acc s \<noteq> OutOfFuel)" for acc s
  proof (cases "parse_value n s")
    case (Parsed x r)
    have r: "length r < length s" using v(1)[of s] Parsed by (simp add: consumes_def)
    define t where "t = skip_ws r"
    have t: "length t \<le> length r" unfolding t_def by (rule skip_ws_le)
    show ?thesis
    proof (cases "take 1 t = '',''")
      case True
      have l: "Suc (length (drop 1 t)) = length t" using take1_drop[OF True] .
      have "consumes (parse_elements n (acc @ [x]) (drop 1 t)) s"
        using e(1)[of "acc @ [x]" "drop 1 t"] l t r by (auto simp: consumes_def split: parsed.splits)
      moreover have "2 * length s + 2 \<le> Suc n \<Longrightarrow>
          parse_elements n (acc @ [x]) (drop 1 t) \<noteq> OutOfFuel"
        using e(2)[of "drop 1 t" "acc @ [x]"] l t r by simp
      ultimately show ?thesis using Parsed True by (auto simp: t_def[symmetric] Let_def)
    next
      case False
      have "length (drop 1 t) < length s" using t r by simp
      then show ?thesis using Parsed False by (auto simp: t_def[symmetric] Let_def consumes_def)
    qed
  next
    case SyntaxError
    then show ?thesis by (simp add: consumes_def)
  next
    case OutOfFuel
    then show ?thesis using v(2)[of s] by (auto simp: consumes_def)
  qed
  have pm: "consumes (parse_members (Suc n) acc s) s \<and>
        (2 * length s + 1 \<le> Suc n \<longrightarrow> parse_members (Suc n) acc s \<noteq> OutOfFuel)" for acc s
  proof -
    define t where "t = skip_ws s"
    have t: "length t \<le> length s" unfolding t_def by (rule skip_ws_le)
    show ?thesis
    proof (cases "take 1 t = [DQ]")
      case False
      then show ?thesis by (simp add: t_def[symmetric] Let_def consumes_def)
    next
      case q: True
      show ?thesis
      proof (cases "string_body (drop 1 t)")
        case None
        then show ?thesis using q by (simp add: t_def[symmetric] Let_def consumes_def)
      next
        case (Some kr)
        obtain k r where kr: "kr = (k, r)" by (cases kr)
        have r: "length r < length t"
          using string_body_less[of "drop 1 t" k r] Some kr by simp
        define r1 where "r1 = skip_ws r"
        have r1: "length r1 \<le> length r" unfolding r1_def by (rule skip_ws_le)
        show ?thesis
        proof (cases "take 1 r1 = '':''")
          case False
          then show ?thesis using q Some kr
            by (simp add: t_def[symmetric] r1_def[symmetric] Let_def consumes_def)
        next
          case c: True
          have l1: "Suc (length (drop 1 r1)) = length r1" using take1_drop[OF c] .
          show ?thesis
          proof (cases "parse_value n (drop 1 r1)")
            case (Parsed x r2)
            have r2: "length r2 < length (drop 1 r1)"
              using v(1)[of "drop 1 r1"] Parsed by (simp add: consumes_def)
            define r3 where "r3 = skip_ws r2"
            have r3: "length r3 \<le> length r2" unfolding r3_def by (rule skip_ws_le)
            have u: "parse_members (Suc n) acc s =
                (if take 1 r3 = '','' then parse_members n (obj_set acc k x) (drop 1 r3)
                 else if take 1 r3 = ''}'' then Parsed (JObject (obj_set acc k x)) (drop 1 r3)
                 else SyntaxError)"
              using q Some kr c Parsed
              by (simp add: t_def[symmetric] r1_def[symmetric] r3_def[symmetric] Let_def)
            show ?thesis
            proof (cases "take 1 r3 = '',''")
              case True
              have "consumes (parse_members n (obj_set acc k x) (drop 1 r3)) s"
                using m(1)[of "obj_set acc k x" "drop 1 r3"] r3 r2 l1 r1 r t
                by (auto simp: consumes_def split: parsed.splits)
              moreover have "2 * length s + 1 \<le> Suc n \<Longrightarrow>
                  parse_members n (obj_set acc k x) (drop 1 r3) \<noteq> OutOfFuel"
                using m(2)[of "drop 1 r3" "obj_set acc k x"] r3 r2 l1 r1 r t by simp
              ultimately show ?thesis using u True by auto
            next
              case False
              have "length (drop 1 r3) < length s" using r3 r2 l1 r1 r t by simp
              then show ?thesis using u False by (auto simp: consumes_def)
            qed
          next
            case SyntaxError
            then show ?thesis using q Some kr c
              by (simp add: t_def[symmetric] r1_def[symmetric] Let_def consumes_def)
          next
            case OutOfFuel
            have "2 * length s + 1 \<le> Suc n \<Longrightarrow> parse_value n (drop 1 r1) \<noteq> OutOfFuel"
              using v(2)[of "drop 1 r1"] l1 r1 r t by simp
            then show ?thesis using OutOfFuel q Some kr c
              by (auto simp: t_def[symmetric] r1_def[symmetric] Let_def consumes_def)
          qed
        qed
      qed
    qed
  qed
  show ?case using pv pe pm by blast
qed

lemma JSON_parse_total: "JSON_parse s \<noteq> OutOfFuel"
proof -
  have "parse_value (2 * length s + 2) s \<noteq> OutOfFuel"
    using parse_fuel[of "2 * length s + 2"] by simp
  then show ?thesis by (auto simp: JSON_parse_def split: parsed.splits)
qed

lemma JSON_parse_key_order:
  "JSON_parse (''{'' @ [DQ] @ ''b'' @ [DQ] @ '':1,'' @ [DQ] @ ''2'' @ [DQ] @ '':2,'' @ [DQ] @ ''1'' @
               [DQ] @ '':3}'') =
     Parsed (JObject [([49], JNumber 3 0), ([50], JNumber 2 0), ([98], JNumber 1 0)]) []"
  by code_simp

lemma ensureDebugPort_determined:
  "ensureDebugPort port writable restart fs \<noteq> Undetermined \<and>
   ensureDebugPort_v31 preferred taken writable restart fs \<noteq> Undetermined"
  using JSON_parse_total
  by (auto simp: ensureDebugPort_def ensureDebugPort_v31_def Let_def
           split: parsed.splits completion.splits option.splits)











lemma JSON_parse_empty: "JSON_parse [] = SyntaxError"
  by code_simp

lemma strip_v31_empty: "stripJsonComments_v31 [] = []"
  by code_simp

lemma ensure_v31_unfold:
  assumes "read_file fs (getArgvJsonPath fs) = Some raw"
      and "JSON_parse (stripJsonComments_v31 raw) = Parsed data r"
      and "get_port data = Value v"
  shows "ensureDebugPort_v31 preferred taken writable restart fs =
           (if truthy_json v then Configured (the v)
            else case findAvailablePort taken preferred of
                   Throw \<Rightarrow> Failed
                 | Value port \<Rightarrow>
                     if \<not> writable then Failed
                     else Wrote (getArgvJsonPath fs) (Text (insertPortIntoArgv raw port))
                            (if restart then Some ''workbench.action.quit'' else None))"
proof -
  have "raw \<noteq> []" using assms(2) by (auto simp: strip_v31_empty JSON_parse_empty)
  then show ?thesis using assms
    by (simp add: ensureDebugPort_v31_def Let_def split: completion.splits)
qed


lemma ensure_v30_no_text: "ensureDebugPort port writable restart fs \<noteq> Wrote p (Text t) c"
  by (auto simp: ensureDebugPort_def Let_def split: parsed.splits completion.splits option.splits)













lemma lastIndexOf_last: "c \<notin> set post \<Longrightarrow> lastIndexOf c (x @ c # post) = Some (length x)"
proof -
  assume a: "c \<notin> set post"
  have "takeWhile (\<lambda>y. y \<noteq> c) (rev post @ c # rev x) = rev post"
    using a by (subst takeWhile_append2) auto
  then show ?thesis by (simp add: lastIndexOf_def)
qed

lemma comma_class_not_space: "comma_class c \<Longrightarrow> \<not> js_space c"
  by (auto simp: comma_class_def js_space_def Let_def)

lemma trimEnd_keep: "s \<noteq> [] \<Longrightarrow> \<not> js_space (last s) \<Longrightarrow> list_all js_space sp \<Longrightarrow>
   trimEnd (s @ sp) = s"
proof -
  assume a: "s \<noteq> []" "\<not> js_space (last s)" "list_all js_space sp"
  have "dropWhile js_space (rev sp @ rev s) = dropWhile js_space (rev s)"
    using a(3) by (subst dropWhile_append2) (auto simp: list_all_iff)
  moreover have "dropWhile js_space (rev s) = rev s"
    using a(1,2) by (cases "rev s") (auto simp: last_rev hd_rev[symmetric] dest: arg_cong[of _ _ hd])
  ultimately show ?thesis by (simp add: trimEnd_def)
qed

lemma insertPortIntoArgv_last:
  assumes "CHR ''}'' \<notin> set post"
  shows "insertPortIntoArgv (x @ CHR ''}'' # post) port =
           trimEnd x @ (if needsComma (trimEnd x) then '','' else []) @ port_entry port @
           CHR ''}'' # post"
  unfolding insertPortIntoArgv_def lastIndexOf_last[OF assms] by (simp add: Let_def)

lemma insertPortIntoArgv_comment:
  assumes "c \<noteq> []" and "comma_class (last c)"
  shows "insertPortIntoArgv (pre @ ''//'' @ c @ [NL] @ ''}'') port =
           pre @ ''//'' @ c @ '','' @ port_entry port @ ''}''"
proof -
  let ?x = "pre @ ''//'' @ c @ [NL]"
  have n: "(pre @ ''//'' @ c) \<noteq> []" "last (pre @ ''//'' @ c) = last c" using assms(1) by simp_all
  have "trimEnd ((pre @ ''//'' @ c) @ [NL]) = pre @ ''//'' @ c"
    by (rule trimEnd_keep) (use n assms(2) comma_class_not_space in \<open>auto simp: js_space_def\<close>)
  then have t: "trimEnd ?x = pre @ ''//'' @ c" by simp
  have k: "needsComma (pre @ ''//'' @ c)"
    using assms n by (simp add: needsComma_def)
  have "insertPortIntoArgv (?x @ CHR ''}'' # []) port =
          trimEnd ?x @ (if needsComma (trimEnd ?x) then '','' else []) @ port_entry port @ ''}''"
    by (rule insertPortIntoArgv_last) simp
  then have "insertPortIntoArgv (?x @ CHR ''}'' # []) port =
          (pre @ ''//'' @ c) @ '','' @ port_entry port @ ''}''"
    unfolding t using k by simp
  moreover have "?x @ CHR ''}'' # [] = pre @ ''//'' @ c @ [NL] @ ''}''" by simp
  ultimately show ?thesis by simp
qed

text \<open>
  Claim C9 does not hold of the code.  The v3.1 function keeps the text of the file and
  inserts the entry before its last closing brace, but it puts the comma that separates
  the entry behind the last character before that brace, whatever that character belongs
  to.  When a line comment is the last thing before the brace and ends in a character
  that asks for the comma, the comma becomes part of the comment.
\<close>

theorem rewrite_puts_comma_in_comment:
  assumes "read_file fs (getArgvJsonPath fs) = Some (pre @ ''//'' @ c @ [NL] @ ''}'')"
      and "JSON_parse (stripJsonComments_v31 (pre @ ''//'' @ c @ [NL] @ ''}'')) = Parsed data r"
      and "get_port data = Value v" and "\<not> truthy_json v"
      and "findAvailablePort taken preferred = Value port"
      and "c \<noteq> []" and "comma_class (last c)"
  shows "ensureDebugPort_v31 preferred taken True restart fs =
           Wrote (getArgvJsonPath fs)
             (Text (pre @ ''//'' @ c @ '','' @ port_entry port @ ''}''))
             (if restart then Some ''workbench.action.quit'' else None)"
  using ensure_v31_unfold[OF assms(1,2,3), of preferred taken True restart] assms(4,5)
    insertPortIntoArgv_comment[OF assms(6,7), of pre port]
  by simp

text \<open>
  For the file \<^verbatim>\<open>{"a":1 // c\<close>, newline, \<^verbatim>\<open>}\<close>, which v3.1 parses, the text written has no
  comma between the two entries: it no longer parses, and the next call takes the error
  branch.
\<close>

lemma commented_fs_file:
  "read_file commented_fs (getArgvJsonPath commented_fs) =
     Some ((''{'' @ [DQ] @ ''a'' @ [DQ] @ '':1 '') @ ''//'' @ '' c'' @ [NL] @ ''}'') \<and>
   getArgvJsonPath commented_fs = AntigravityArgv"
  by code_simp

lemma commented_argv_parse:
  "JSON_parse (stripJsonComments_v31
     ((''{'' @ [DQ] @ ''a'' @ [DQ] @ '':1 '') @ ''//'' @ '' c'' @ [NL] @ ''}'')) =
     Parsed (JObject [([97], JNumber 1 0)]) [] \<and>
   get_port (JObject [([97], JNumber 1 0)]) = Value None \<and> \<not> truthy_json None \<and>
   findAvailablePort no_port_taken 9222 = Value 9222 \<and>
   '' c'' \<noteq> [] \<and> comma_class (last '' c'')"
  by code_simp

lemma commented_written_text:
  "(''{'' @ [DQ] @ ''a'' @ [DQ] @ '':1 '') @ ''//'' @ '' c'' @ '','' @ port_entry 9222 @ ''}'' =
     commented_written"
  by code_simp

lemma commented_written_parse:
  "JSON_parse (stripJsonComments_v31 commented_written) = SyntaxError \<and>
   ensureDebugPort_v31 9222 no_port_taken True False
     \<lparr>antigravity_argv = Some commented_written, vscode_argv = None\<rparr> = Failed"
  by code_simp

theorem rewrite_puts_comma_in_comment_witness:
  "ensureDebugPort_v31 9222 no_port_taken True False commented_fs =
     Wrote AntigravityArgv (Text commented_written) None \<and>
   JSON_parse (stripJsonComments_v31 commented_argv) = Parsed (JObject [([97], JNumber 1 0)]) [] \<and>
   JSON_parse (stripJsonComments_v31 commented_written) = SyntaxError \<and>
   ensureDebugPort_v31 9222 no_port_taken True False
     \<lparr>antigravity_argv = Some commented_written, vscode_argv = None\<rparr> = Failed"
proof -
  have a: "read_file commented_fs (getArgvJsonPath commented_fs) =
       Some ((''{'' @ [DQ] @ ''a'' @ [DQ] @ '':1 '') @ ''//'' @ '' c'' @ [NL] @ ''}'')"
    and p: "getArgvJsonPath commented_fs = AntigravityArgv"
    using commented_fs_file by blast+
  have b: "JSON_parse (stripJsonComments_v31
       ((''{'' @ [DQ] @ ''a'' @ [DQ] @ '':1 '') @ ''//'' @ '' c'' @ [NL] @ ''}'')) =
       Parsed (JObject [([97], JNumber 1 0)]) []"
    and c: "get_port (JObject [([97], JNumber 1 0)]) = Value None" "\<not> truthy_json None"
      "findAvailablePort no_port_taken 9222 = Value 9222"
      "'' c'' \<noteq> []" "comma_class (last '' c'')"
    using commented_argv_parse by blast+
  have w: "ensureDebugPort_v31 9222 no_port_taken True False commented_fs =
       Wrote (getArgvJsonPath commented_fs)
         (Text ((''{'' @ [DQ] @ ''a'' @ [DQ] @ '':1 '') @ ''//'' @ '' c'' @ '','' @
                port_entry 9222 @ ''}''))
         (if False then Some ''workbench.action.quit'' else None)"
    by (rule rewrite_puts_comma_in_comment [OF a b c])
  have e: "(''{'' @ [DQ] @ ''a'' @ [DQ] @ '':1 '') @ ''//'' @ '' c'' @ [NL] @ ''}'' = commented_argv"
    by code_simp
  show ?thesis
  proof (intro conjI)
    show "ensureDebugPort_v31 9222 no_port_taken True False commented_fs =
       Wrote AntigravityArgv (Text commented_written) None"
      using w by (simp only: p commented_written_text if_False)
    show "JSON_parse (stripJsonComments_v31 commented_argv) = Parsed (JObject [([97], JNumber 1 0)]) []"
      using b by (simp only: e)
    show "JSON_parse (stripJsonComments_v31 commented_written) = SyntaxError"
      using commented_written_parse by (rule conjunct1)
    show "ensureDebugPort_v31 9222 no_port_taken True False
       \<lparr>antigravity_argv = Some commented_written, vscode_argv = None\<rparr> = Failed"
      using commented_written_parse by (rule conjunct2)
  qed
qed

text \<open>
  The function of \<^verbatim>\<open>src/extension.js\<close> diverges from the claim C9 as well: a trailing
  comma sends it to its error branch, and for a file with a comment it writes the parsed
  value, in which no comment is left.
\<close>

theorem v30_rejects_trailing_comma:
  "ensureDebugPort 9222 True False
     \<lparr>antigravity_argv = Some (''{'' @ [DQ] @ ''a'' @ [DQ] @ '':1,}''), vscode_argv = None\<rparr> = Failed \<and>
   ensureDebugPort 9222 True False
     \<lparr>antigravity_argv = Some (''{//c'' @ [NL] @ ''}''), vscode_argv = None\<rparr> =
     Wrote AntigravityArgv (Stringified (JObject [(port_key, JNumber 9222 0)])) None"
  by code_simp

text \<open>
  For comparison, a file with a comment line and a trailing comma that v3.1 rewrites as
  the claim says, and a text with no closing brace, which v3.1 replaces by a new object.
\<close>

lemma v31_rewrites_sample:
  "ensureDebugPort_v31 9222 port_9222_taken True False sample_fs =
     Wrote AntigravityArgv
       (Text (''{'' @ [NL] @ ''  // note'' @ [NL] @ ''  '' @ [DQ] @ ''a'' @ [DQ] @ '': 1,'' @ [NL] @
              ''    '' @ [DQ] @ ''remote-debugging-port'' @ [DQ] @ '': 9223'' @ [NL] @ ''}'')) None \<and>
   ensureDebugPort 9222 True False sample_fs = Failed"
  by code_simp

lemma v31_replaces_braceless_text:
  "ensureDebugPort_v31 9222 no_port_taken True False
     \<lparr>antigravity_argv = Some ''[1]'', vscode_argv = None\<rparr> =
     Wrote AntigravityArgv (Text (''{'' @ port_entry 9222 @ ''}'' @ [NL])) None"
  by code_simp

end
